theory Spec2Isabelle
  imports Complex_Main "HOL-Library.Multiset" "HOL-Library.Sublist"
begin

section \<open>Python values and library operations used by the engine\<close>

text \<open>
  The engine is the Python package \<^verbatim>\<open>conference\<close>: \<^verbatim>\<open>crews/pharma_crew/pharma_crew.py\<close>
  (batch planning, the batch pipeline, response repair, aggregation),
  \<^verbatim>\<open>crews/pharma_crew/async_attendee_processor.py\<close> (the per-item fanout) and
  \<^verbatim>\<open>tools/async_web_search_tool.py\<close> (the enrichment client).

  Python's unbounded integers are \<^typ>\<open>int\<close>; \<open>//\<close> on them is floor division, which is
  \<open>div\<close> on \<^typ>\<open>int\<close>. A raised exception is a value: \<open>Exception msg\<close> stands for an
  instance of a subclass of Python's \<^verbatim>\<open>Exception\<close> whose \<^verbatim>\<open>str(e)\<close> is \<open>msg\<close> (the
  handlers of the engine are all \<^verbatim>\<open>except Exception\<close> or broader).
\<close>

datatype exn = Exception string

fun str_of_exn :: "exn \<Rightarrow> string" where
  "str_of_exn (Exception msg) = msg"

text \<open>
  A slice \<^verbatim>\<open>xs[a:b]\<close>: a negative bound counts from the end, and both bounds are
  clamped to the list.
\<close>

definition py_bound :: "nat \<Rightarrow> int \<Rightarrow> nat" where
  "py_bound n a = (if a < 0 then nat (max (a + int n) 0) else min (nat a) n)"

definition py_slice :: "'a list \<Rightarrow> int \<Rightarrow> int \<Rightarrow> 'a list" where
  "py_slice xs a b =
     (let lo = py_bound (length xs) a; hi = py_bound (length xs) b
      in take (hi - lo) (drop lo xs))"

section \<open>Batch planning\<close>

text \<open>
  \<^verbatim>\<open>PharmaCrew.analyze\<close>, line 470:
  \<^verbatim>\<open>self.total_batches = (total_attendees + self.batch_size - 1) // self.batch_size\<close>.
  The division raises \<^verbatim>\<open>ZeroDivisionError\<close> when \<^verbatim>\<open>batch_size\<close> is 0.
\<close>

definition total_batches :: "int \<Rightarrow> int \<Rightarrow> exn + int" where
  "total_batches total_attendees batch_size =
     (if batch_size = 0 then Inl (Exception ''integer division or modulo by zero'')
      else Inr ((total_attendees + batch_size - 1) div batch_size))"

text \<open>
  \<^verbatim>\<open>preprocess_attendees(attendees, batch_size, batch_index)\<close>, lines 68-88. The slice is
  taken first; the progress line printed afterwards divides by \<^verbatim>\<open>batch_size\<close> and so
  raises when it is 0.
\<close>

definition preprocess_attendees :: "'a list \<Rightarrow> int \<Rightarrow> int \<Rightarrow> exn + 'a list" where
  "preprocess_attendees attendees batch_size batch_index =
     (let total_attendees = int (length attendees);
          batch_start = batch_index * batch_size;
          batch_end = min (batch_start + batch_size) total_attendees;
          current_batch = py_slice attendees batch_start batch_end
      in if batch_size = 0 then Inl (Exception ''integer division or modulo by zero'')
         else Inr current_batch)"

section \<open>Strings\<close>

text \<open>
  A Python \<^verbatim>\<open>str\<close> is modelled as a \<^typ>\<open>string\<close>, so the texts considered are those
  whose code points are below 256. \<open>is_space\<close> is the class \<^verbatim>\<open>\s\<close> of \<^verbatim>\<open>re\<close> on \<^verbatim>\<open>str\<close>
  patterns, which is also what \<^verbatim>\<open>str.strip()\<close> removes: in this range the characters
  9 to 13, 28 to 32, 133 and 160.
\<close>

definition is_space :: "char \<Rightarrow> bool" where
  "is_space c = (c \<in> set [CHR 0x09, CHR 0x0A, CHR 0x0B, CHR 0x0C, CHR 0x0D,
                           CHR 0x1C, CHR 0x1D, CHR 0x1E, CHR 0x1F, CHR 0x20, CHR 0x85, CHR 0xA0])"

definition py_strip :: "string \<Rightarrow> string" where
  "py_strip s = rev (dropWhile is_space (rev (dropWhile is_space s)))"

text \<open>\<^verbatim>\<open>sub in s\<close> on strings: \<open>sub\<close> occurs in \<open>s\<close> as a contiguous piece.\<close>

fun py_in :: "string \<Rightarrow> string \<Rightarrow> bool" where
  "py_in sub [] = (sub = [])"
| "py_in sub (c # cs) = (if prefix sub (c # cs) then True else py_in sub cs)"

text \<open>\<^verbatim>\<open>s.split(c)\<close> for a one-character separator; the result is never empty.\<close>

fun py_split :: "char \<Rightarrow> string \<Rightarrow> string list" where
  "py_split c [] = [[]]"
| "py_split c (x # xs) =
     (if x = c then [] # py_split c xs
      else (case py_split c xs of w # ws \<Rightarrow> (x # w) # ws | [] \<Rightarrow> [[x]]))"

section \<open>Regular expressions of the repairer\<close>

text \<open>
  The patterns of \<^verbatim>\<open>clean_json_text\<close> are sequences of four kinds of item: a literal, an
  optional literal \<^verbatim>\<open>(?:lit)?\<close>, \<^verbatim>\<open>\s*\<close> and \<^verbatim>\<open>\s+\<close>. \<open>match_pat\<close> is the backtracking
  match of \<^verbatim>\<open>re\<close> at the start of a text: each item first takes as much as it can and gives
  back when the rest of the pattern fails. It returns the text left after the match.
\<close>

datatype tok = Lit string | Opt string | Spaces0 | Spaces1

primrec give_back :: "(string \<Rightarrow> string option) \<Rightarrow> nat \<Rightarrow> nat \<Rightarrow> string \<Rightarrow> string option" where
  "give_back rest least 0 s = (if least = 0 then rest s else None)"
| "give_back rest least (Suc k) s =
     (if Suc k < least then None
      else (case rest (drop (Suc k) s) of
              Some r \<Rightarrow> Some r
            | None \<Rightarrow> give_back rest least k s))"

primrec match_pat :: "tok list \<Rightarrow> string \<Rightarrow> string option" where
  "match_pat [] = (\<lambda>s. Some s)"
| "match_pat (t # ts) = (\<lambda>s.
     (case t of
        Lit l \<Rightarrow> (if prefix l s then match_pat ts (drop (length l) s) else None)
      | Opt l \<Rightarrow>
          (case (if prefix l s then match_pat ts (drop (length l) s) else None) of
             Some r \<Rightarrow> Some r
           | None \<Rightarrow> match_pat ts s)
      | Spaces0 \<Rightarrow> give_back (match_pat ts) 0 (length (takeWhile is_space s)) s
      | Spaces1 \<Rightarrow> give_back (match_pat ts) 1 (length (takeWhile is_space s)) s))"

text \<open>
  \<^verbatim>\<open>re.sub(pattern, repl, text)\<close> for a replacement without group references: the text is
  scanned from the left, each match found is replaced and the scan goes on after it. A match
  of the empty string is replaced and the scan moves one character on.
\<close>

function re_sub :: "tok list \<Rightarrow> string \<Rightarrow> string \<Rightarrow> string" where
  "re_sub pat repl [] = (case match_pat pat [] of Some r \<Rightarrow> repl | None \<Rightarrow> [])"
| "re_sub pat repl (c # cs) =
     (case match_pat pat (c # cs) of
        Some r \<Rightarrow>
          (if length r < length (c # cs) then repl @ re_sub pat repl r
           else repl @ c # re_sub pat repl cs)
      | None \<Rightarrow> c # re_sub pat repl cs)"
  by pat_completeness auto
termination
  by (relation "measure (\<lambda>(pat, repl, s). length s)") auto

text \<open>A non-empty run of whitespace, what \<^verbatim>\<open>\s+\<close> matches.\<close>

definition blank :: "string \<Rightarrow> bool" where
  "blank w = (w \<noteq> [] \<and> list_all is_space w)"

section \<open>Response repair: the cleaning step\<close>

text \<open>\<^verbatim>\<open>clean_json_text(text)\<close>, lines 27-40 of \<^verbatim>\<open>pharma_crew.py\<close>.\<close>

definition industry_alternation :: "tok list" where
  \<open>industry_alternation =
     [Lit ''"Pharmaceutical"'', Spaces1, Lit ''or'', Spaces1,
      Lit ''"Healthcare"'', Spaces1, Lit ''or'', Spaces1, Lit ''"Other"'']\<close>

definition sub_category_alternation :: "tok list" where
  \<open>sub_category_alternation =
     [Lit ''"Pharma"'', Spaces1, Lit ''or'', Spaces1,
      Lit ''"Oncology"'', Spaces1, Lit ''or'', Spaces1,
      Lit ''"Women's Health"'', Spaces1, Lit ''or'', Spaces1,
      Lit ''"Organ Studies"'', Spaces1, Lit ''or'', Spaces1, Lit ''"Not a Lead"'']\<close>

definition clean_json_text :: "string \<Rightarrow> string" where
  \<open>clean_json_text text =
     (let text = re_sub [Lit ''```'', Opt ''json'', Spaces0] '''' text;
          text = re_sub [Spaces0, Lit ''```''] '''' text;
          text = py_strip text;
          text = re_sub industry_alternation ''"Pharmaceutical"'' text;
          text = re_sub sub_category_alternation ''"Pharma"'' text
      in text)\<close>

text \<open>
  The two alternations of the table as they can appear in a text, with the whitespace
  written around each \<^verbatim>\<open>or\<close>; and a text that begins with one of them, for some non-empty
  runs of whitespace.
\<close>

definition industry_phrase :: "string \<Rightarrow> string \<Rightarrow> string \<Rightarrow> string \<Rightarrow> string" where
  \<open>industry_phrase w1 w2 w3 w4 =
     ''"Pharmaceutical"'' @ w1 @ ''or'' @ w2 @ ''"Healthcare"'' @ w3 @ ''or'' @ w4 @ ''"Other"''\<close>

definition sub_category_phrase ::
  "string \<Rightarrow> string \<Rightarrow> string \<Rightarrow> string \<Rightarrow> string \<Rightarrow> string \<Rightarrow> string \<Rightarrow> string \<Rightarrow> string" where
  \<open>sub_category_phrase w1 w2 w3 w4 w5 w6 w7 w8 =
     ''"Pharma"'' @ w1 @ ''or'' @ w2 @ ''"Oncology"'' @ w3 @ ''or'' @ w4
       @ ''"Women's Health"'' @ w5 @ ''or'' @ w6 @ ''"Organ Studies"'' @ w7 @ ''or'' @ w8
       @ ''"Not a Lead"''\<close>

definition begins_industry :: "string \<Rightarrow> bool" where
  "begins_industry s =
     (\<exists>w1 w2 w3 w4 rest. blank w1 \<and> blank w2 \<and> blank w3 \<and> blank w4
        \<and> s = industry_phrase w1 w2 w3 w4 @ rest)"

definition begins_sub_category :: "string \<Rightarrow> bool" where
  "begins_sub_category s =
     (\<exists>w1 w2 w3 w4 w5 w6 w7 w8 rest.
        blank w1 \<and> blank w2 \<and> blank w3 \<and> blank w4 \<and> blank w5 \<and> blank w6 \<and> blank w7 \<and> blank w8
        \<and> s = sub_category_phrase w1 w2 w3 w4 w5 w6 w7 w8 @ rest)"

text \<open>
  The aggressive filter of the second parse attempt (lines 358 and 425):
  \<^verbatim>\<open>re.sub(r'[^\[\]\{\}",:a-zA-Z0-9_\-\s]', '', cleaned_text)\<close> keeps exactly the characters
  of the class and removes every other one.
\<close>

definition ascii_alnum :: "char \<Rightarrow> bool" where
  "ascii_alnum c =
     (c \<in> set ''abcdefghijklmnopqrstuvwxyzABCDEFGHIJKLMNOPQRSTUVWXYZ0123456789'')"

definition keep_char :: "char \<Rightarrow> bool" where
  \<open>keep_char c = (c \<in> set ''[]{}",:'' \<or> ascii_alnum c \<or> c = CHR ''_'' \<or> c = CHR ''-'' \<or> is_space c)\<close>

definition aggressive_clean :: "string \<Rightarrow> string" where
  "aggressive_clean cleaned_text = filter keep_char cleaned_text"

section \<open>Attendees and the enrichment client\<close>

text \<open>
  An attendee is a dictionary from field names to values. The record normalizer
  (\<^verbatim>\<open>utils.preprocess_attendee_data\<close>) stores strings, and \<^verbatim>\<open>None\<close> for an organization it
  could not derive, so a value is a string or \<^verbatim>\<open>None\<close>. \<open>dict_get a k\<close> is
  \<^verbatim>\<open>attendee.get(k, '')\<close>.
\<close>

datatype pyval = PNone | PStr string

type_synonym attendee = "string \<rightharpoonup> pyval"

definition dict_get :: "attendee \<Rightarrow> string \<Rightarrow> pyval" where
  "dict_get a k = (case a k of None \<Rightarrow> PStr [] | Some v \<Rightarrow> v)"

text \<open>How a value appears inside an f-string, its truth value, and \<^verbatim>\<open>v or fallback\<close>.\<close>

fun py_str :: "pyval \<Rightarrow> string" where
  "py_str PNone = ''None''"
| "py_str (PStr s) = s"

fun truthy :: "pyval \<Rightarrow> bool" where
  "truthy PNone = False"
| "truthy (PStr s) = (s \<noteq> [])"

definition py_or :: "pyval \<Rightarrow> string \<Rightarrow> string" where
  "py_or v fallback = (if truthy v then py_str v else fallback)"

text \<open>\<^verbatim>\<open>'@' in email\<close>: a \<^verbatim>\<open>TypeError\<close> when \<^verbatim>\<open>email\<close> is \<^verbatim>\<open>None\<close>.\<close>

fun has_at :: "pyval \<Rightarrow> exn + bool" where
  "has_at PNone = Inl (Exception ''argument of type 'NoneType' is not iterable'')"
| "has_at (PStr s) = Inr (CHR ''@'' \<in> set s)"

text \<open>\<^verbatim>\<open>email.split('@')[-1]\<close>.\<close>

definition after_last_at :: "string \<Rightarrow> string" where
  "after_last_at s = last (py_split CHR ''@'' s)"

text \<open>
  The enrichment client, \<^verbatim>\<open>AsyncWebSearchTool\<close>. The remote service is a parameter: what
  the chat completion call returns, or the exception it raises, for a query. A response has
  no choice, or a first choice whose content is a string or \<^verbatim>\<open>None\<close>.
  \<open>run_async\<close> is \<^verbatim>\<open>_run_async\<close> (lines 40-88) and \<open>execute_async\<close> is \<^verbatim>\<open>execute_async\<close>
  (lines 127-172) on the input \<^verbatim>\<open>{"query": query}\<close> that \<^verbatim>\<open>process_attendee\<close> passes.
\<close>

datatype api_response = NoChoices | Choice "string option"

definition no_results :: "string \<Rightarrow> string" where
  "no_results query = ''No results found for query: '' @ [CHR 0x27] @ query @ [CHR 0x27]"

definition run_async :: "(string \<Rightarrow> exn + api_response) \<Rightarrow> string \<Rightarrow> string" where
  "run_async client query =
     (case client query of
        Inl e \<Rightarrow> ''Error performing web search: '' @ str_of_exn e
      | Inr NoChoices \<Rightarrow> no_results query
      | Inr (Choice content) \<Rightarrow>
          (case content of
             None \<Rightarrow> no_results query
           | Some result \<Rightarrow> (if result \<noteq> [] then result else no_results query)))"

definition execute_async :: "(string \<Rightarrow> exn + api_response) \<Rightarrow> string \<Rightarrow> exn + string" where
  "execute_async client query = Inr (run_async client query)"

section \<open>The item fanout\<close>

text \<open>
  The dictionary \<^verbatim>\<open>process_attendee\<close> returns for one attendee. All five values are strings.
\<close>

record outcome =
  person_name :: string
  organization :: string
  email :: string
  company_domain :: string
  search_result :: string

text \<open>Lines 51-59 and 65-76 of \<^verbatim>\<open>async_attendee_processor.py\<close>.\<close>

definition person_name_of :: "attendee \<Rightarrow> string" where
  "person_name_of a =
     (let first_name = dict_get a ''first_name'';
          last_name = dict_get a ''last_name'';
          name = py_strip (py_str first_name @ '' '' @ py_str last_name)
      in if name = [] then ''Unknown'' else name)"

definition search_query :: "string \<Rightarrow> pyval \<Rightarrow> string" where
  "search_query name org =
     (let base_query = (if truthy org then name @ '' '' @ py_str org @ '' '' else name @ '' '')
      in base_query @ '' pharmaceutical executive OR researcher OR scientist. ''
         @ ''Is '' @ name @ '' associated with pharmaceutical industry, oncology, women's health, ''
         @ ''or organ studies research? What therapeutic areas does '' @ py_str org @ '' focus on? ''
         @ ''Role in clinical trials or drug development?'')"

text \<open>
  The handler of \<^verbatim>\<open>process_attendee\<close>, lines 105-114: it builds a result from the attendee
  alone and the text of the exception. It evaluates \<^verbatim>\<open>'@' in attendee.get('email', '')\<close>
  again, so it raises itself when the email is \<^verbatim>\<open>None\<close>.
\<close>

definition process_attendee_except :: "attendee \<Rightarrow> exn \<Rightarrow> exn + outcome" where
  "process_attendee_except a e =
     (case has_at (dict_get a ''email'') of
        Inl e' \<Rightarrow> Inl e'
      | Inr with_at \<Rightarrow>
          Inr \<lparr>person_name = person_name_of a,
               organization = py_or (dict_get a ''organization'') ''Unknown'',
               email = py_str (dict_get a ''email''),
               company_domain =
                 (if with_at then after_last_at (py_str (dict_get a ''email'')) else ''unknown.com''),
               search_result = ''Error: '' @ str_of_exn e\<rparr>)"

text \<open>
  \<^verbatim>\<open>process_attendee(attendee)\<close>, lines 39-114. \<open>tool\<close> is what awaiting
  \<^verbatim>\<open>self.search_tool.execute_async\<close> gives for this call: a text, or a raised exception.
\<close>

definition process_attendee :: "(string \<Rightarrow> exn + string) \<Rightarrow> attendee \<Rightarrow> exn + outcome" where
  "process_attendee tool a =
     (let org = dict_get a ''organization'';
          mail = dict_get a ''email'';
          name = person_name_of a
      in case has_at mail of
           Inl e \<Rightarrow> process_attendee_except a e
         | Inr with_at \<Rightarrow>
             (let domain = (if with_at then after_last_at (py_str mail) else [])
              in case tool (search_query name org) of
                   Inl e \<Rightarrow> process_attendee_except a e
                 | Inr found \<Rightarrow>
                     Inr \<lparr>person_name = name,
                          organization = py_or org ''Unknown'',
                          email = py_str mail,
                          company_domain = (if domain \<noteq> [] then domain else ''unknown.com''),
                          search_result = found\<rparr>))"

text \<open>
  How a call ends: it returns a value, it raises, or it never completes.
\<close>

datatype 'a completion = Returns 'a | Raises exn | Blocks

text \<open>
  \<^verbatim>\<open>asyncio.gather\<close> without \<^verbatim>\<open>return_exceptions\<close>: the results in the order of the
  arguments, or an exception one of them raised (here the one of the earliest argument).
\<close>

fun gather :: "(exn + 'a) list \<Rightarrow> exn + 'a list" where
  "gather [] = Inr []"
| "gather (Inl e # rs) = Inl e"
| "gather (Inr x # rs) = (case gather rs of Inl e \<Rightarrow> Inl e | Inr xs \<Rightarrow> Inr (x # xs))"

text \<open>
  \<^verbatim>\<open>process_attendees(attendees)\<close>, lines 116-152. \<open>tools i\<close> is the behaviour of the search
  tool in the task of the \<open>i\<close>-th attendee. \<^verbatim>\<open>asyncio.Semaphore(n)\<close> raises \<^verbatim>\<open>ValueError\<close>
  for a negative \<open>n\<close>; with \<open>n = 0\<close> no task ever acquires a permit, and the call never
  completes.
\<close>

definition process_attendees ::
  "int \<Rightarrow> (nat \<Rightarrow> string \<Rightarrow> exn + string) \<Rightarrow> attendee list \<Rightarrow> outcome list completion" where
  "process_attendees max_concurrent_searches tools attendees =
     (if attendees = [] then Returns []
      else if max_concurrent_searches < 0
        then Raises (Exception ''Semaphore initial value must be >= 0'')
      else if max_concurrent_searches = 0 then Blocks
      else (case gather (map (\<lambda>i. process_attendee (tools i) (attendees ! i))
                           [0..<length attendees]) of
              Inl e \<Rightarrow> Raises e
            | Inr results \<Rightarrow> Returns results))"

section \<open>The batch pipeline\<close>

text \<open>
  The values \<^verbatim>\<open>json.loads\<close> produces. A number is kept as its literal; nothing in the
  engine computes with it. \<open>py_len\<close> is \<^verbatim>\<open>len\<close>, a \<^verbatim>\<open>TypeError\<close> on a number, a boolean
  or \<^verbatim>\<open>None\<close>. \<open>py_iter\<close> lists what \<^verbatim>\<open>list.extend\<close> appends: the elements of an array,
  the keys of an object, the characters of a string.
\<close>

datatype json =
    JNull
  | JBool bool
  | JNum string
  | JStr string
  | JArr "json list"
  | JObj "(string \<times> json) list"

fun py_len :: "json \<Rightarrow> exn + nat" where
  "py_len (JArr xs) = Inr (length xs)"
| "py_len (JObj kvs) = Inr (length kvs)"
| "py_len (JStr s) = Inr (length s)"
| "py_len v = Inl (Exception ''object has no len()'')"

fun py_iter :: "json \<Rightarrow> exn + json list" where
  "py_iter (JArr xs) = Inr xs"
| "py_iter (JObj kvs) = Inr (map (\<lambda>kv. JStr (fst kv)) kvs)"
| "py_iter (JStr s) = Inr (map (\<lambda>c. JStr [c]) s)"
| "py_iter v = Inl (Exception ''object is not iterable'')"

text \<open>
  What a batch pipeline reports while it runs: each call of \<^verbatim>\<open>json.loads\<close> with its
  argument, and the progress lines it prints at its decision points
  (lines 337, 352, 355, 360, 363, 367 and 243 of \<^verbatim>\<open>pharma_crew.py\<close>).
\<close>

datatype event =
    ParserCall string
  | TelemetryCaught
  | ProcessedOk nat
  | ParseError
  | Recovered nat
  | CouldNotRecover
  | PipelineError string
  | BatchError string

text \<open>
  The collaborators of the engine, per batch index: the search tool's behaviour in each item
  task, the construction of agent, task and crew (lines 302-327, or 385-394 in the
  crew-based mode; \<open>Some e\<close> when it raises), the classification call \<^verbatim>\<open>crew.kickoff()\<close> with
  the \<^verbatim>\<open>raw\<close> text of its result, and \<^verbatim>\<open>json.loads\<close> (\<open>None\<close> for \<^verbatim>\<open>JSONDecodeError\<close>).
\<close>

record collaborators =
  search :: "nat \<Rightarrow> nat \<Rightarrow> string \<Rightarrow> exn + string"
  build :: "nat \<Rightarrow> exn option"
  kickoff :: "nat \<Rightarrow> exn + string"
  loads :: "string \<Rightarrow> json option"

record config =
  batch_size :: int
  max_workers :: int
  max_concurrent_searches :: int
  use_async_processing :: bool

text \<open>
  Lines 332-344 (and 399-411): the classification call. An exception whose text contains
  \<^verbatim>\<open>NoApiKeyException\<close> or \<^verbatim>\<open>AgentOps\<close> is replaced by a result whose raw text is \<^verbatim>\<open>[]\<close>;
  any other exception is raised again.
\<close>

definition is_telemetry_error :: "exn \<Rightarrow> bool" where
  "is_telemetry_error e =
     (py_in ''NoApiKeyException'' (str_of_exn e) \<or> py_in ''AgentOps'' (str_of_exn e))"

definition crew_result :: "collaborators \<Rightarrow> nat \<Rightarrow> event list \<times> (exn + string)" where
  "crew_result w i =
     (case kickoff w i of
        Inr raw \<Rightarrow> ([], Inr raw)
      | Inl e \<Rightarrow>
          (if is_telemetry_error e then ([TelemetryCaught], Inr ''[]'') else ([], Inl e)))"

text \<open>
  Lines 347-364 (and 414-431): the repairer. The first \<^verbatim>\<open>json.loads\<close> is guarded by
  \<^verbatim>\<open>except json.JSONDecodeError\<close> only, so the \<^verbatim>\<open>TypeError\<close> of \<^verbatim>\<open>len\<close> in the progress line
  leaves this block; the second attempt is guarded by a bare \<^verbatim>\<open>except\<close>.
\<close>

definition parse_results :: "(string \<Rightarrow> json option) \<Rightarrow> string \<Rightarrow> event list \<times> (exn + json)" where
  "parse_results json_loads raw =
     (let cleaned_text = clean_json_text raw
      in case json_loads cleaned_text of
           Some batch_results \<Rightarrow>
             (case py_len batch_results of
                Inl e \<Rightarrow> ([ParserCall cleaned_text], Inl e)
              | Inr n \<Rightarrow> ([ParserCall cleaned_text, ProcessedOk n], Inr batch_results))
         | None \<Rightarrow>
             (let cleaned_again = aggressive_clean cleaned_text
              in case json_loads cleaned_again of
                   Some batch_results \<Rightarrow>
                     (case py_len batch_results of
                        Inl e \<Rightarrow>
                          ([ParserCall cleaned_text, ParseError, ParserCall cleaned_again,
                            CouldNotRecover], Inr (JArr []))
                      | Inr n \<Rightarrow>
                          ([ParserCall cleaned_text, ParseError, ParserCall cleaned_again,
                            Recovered n], Inr batch_results))
                 | None \<Rightarrow>
                     ([ParserCall cleaned_text, ParseError, ParserCall cleaned_again,
                       CouldNotRecover], Inr (JArr []))))"

text \<open>
  Lines 300-370 after the fanout (and lines 383-436): build the crew, classify, repair. An
  exception that leaves the inner blocks is caught by the outer \<^verbatim>\<open>except Exception\<close>, which
  prints it and returns the empty list.
\<close>

definition classify_and_repair :: "collaborators \<Rightarrow> nat \<Rightarrow> event list \<times> json" where
  "classify_and_repair w i =
     (case build w i of
        Some e \<Rightarrow> ([PipelineError (str_of_exn e)], JArr [])
      | None \<Rightarrow>
          (case crew_result w i of
             (evs, Inl e) \<Rightarrow> (evs @ [PipelineError (str_of_exn e)], JArr [])
           | (evs, Inr raw) \<Rightarrow>
               (case parse_results (loads w) raw of
                  (evs', Inl e) \<Rightarrow> (evs @ evs' @ [PipelineError (str_of_exn e)], JArr [])
                | (evs', Inr batch_results) \<Rightarrow> (evs @ evs', batch_results))))"

text \<open>
  \<^verbatim>\<open>process_batch_async(current_batch, batch_index)\<close>, lines 248-370, and
  \<^verbatim>\<open>process_batch_with_crew(current_batch, batch_index)\<close>, lines 372-436. \<open>None\<close>: the call
  never returns, because the fanout never completes.
\<close>

definition process_batch_async ::
  "collaborators \<Rightarrow> config \<Rightarrow> attendee list \<Rightarrow> nat \<Rightarrow> (event list \<times> json) option" where
  "process_batch_async w cfg current_batch i =
     (case process_attendees (max_concurrent_searches cfg) (search w i) current_batch of
        Blocks \<Rightarrow> None
      | Raises e \<Rightarrow> Some ([PipelineError (str_of_exn e)], JArr [])
      | Returns search_results \<Rightarrow> Some (classify_and_repair w i))"

definition process_batch_with_crew ::
  "collaborators \<Rightarrow> config \<Rightarrow> attendee list \<Rightarrow> nat \<Rightarrow> (event list \<times> json) option" where
  "process_batch_with_crew w cfg current_batch i = Some (classify_and_repair w i)"

text \<open>\<^verbatim>\<open>process_batch(batch_index)\<close>, lines 224-246.\<close>

definition process_batch ::
  "collaborators \<Rightarrow> config \<Rightarrow> attendee list \<Rightarrow> nat \<Rightarrow> (event list \<times> json) option" where
  "process_batch w cfg attendees i =
     (case preprocess_attendees attendees (batch_size cfg) (int i) of
        Inl e \<Rightarrow> Some ([BatchError (str_of_exn e)], JArr [])
      | Inr current_batch \<Rightarrow>
          (if use_async_processing cfg then process_batch_async w cfg current_batch i
           else process_batch_with_crew w cfg current_batch i))"

section \<open>Aggregation\<close>

text \<open>
  The number of batch tasks \<^verbatim>\<open>analyze\<close> submits (lines 463-498). It returns early on an
  empty attendee list; a zero \<^verbatim>\<open>batch_size\<close> raises at line 470 and a pool width
  \<^verbatim>\<open>min(max_workers, total_batches)\<close> that is not positive raises in
  \<^verbatim>\<open>ThreadPoolExecutor\<close>, both caught at line 515, where \<^verbatim>\<open>analyze\<close> returns the empty list.
\<close>

definition submitted_batches :: "config \<Rightarrow> attendee list \<Rightarrow> nat" where
  "submitted_batches cfg attendees =
     (if attendees = [] then 0
      else (case total_batches (int (length attendees)) (batch_size cfg) of
              Inl e \<Rightarrow> 0
            | Inr n_batches \<Rightarrow>
                (if min (max_workers cfg) n_batches \<le> 0 then 0 else nat n_batches)))"

text \<open>
  Lines 501-509: \<^verbatim>\<open>self.all_results.extend(batch_results)\<close> under the lock, inside a
  \<^verbatim>\<open>try\<close> whose handler only prints.
\<close>

definition extend :: "json list \<Rightarrow> json \<Rightarrow> json list" where
  "extend all_results batch_results =
     (case py_iter batch_results of
        Inl e \<Rightarrow> all_results
      | Inr items \<Rightarrow> all_results @ items)"

text \<open>
  \<^verbatim>\<open>analyze()\<close>, lines 450-519. \<open>order\<close> is the order in which
  \<^verbatim>\<open>concurrent.futures.as_completed\<close> yields the batches, a permutation of the submitted
  indices chosen by the scheduler. \<open>None\<close>: \<^verbatim>\<open>analyze\<close> never returns, because some batch
  never does.
\<close>

definition analyze ::
  "collaborators \<Rightarrow> config \<Rightarrow> attendee list \<Rightarrow> nat list \<Rightarrow> json list option" where
  "analyze w cfg attendees order =
     (if submitted_batches cfg attendees = 0 then Some []
      else (case those (map (process_batch w cfg attendees)
                          [0..<submitted_batches cfg attendees]) of
              None \<Rightarrow> None
            | Some finished \<Rightarrow> Some (foldl extend [] (map (\<lambda>i. snd (finished ! i)) order))))"

text \<open>
  A batch completed successfully when its pipeline reported a parsed result, at the first
  attempt or after the aggressive cleaning. Its records are what it hands to the aggregator.
\<close>

fun is_success :: "event \<Rightarrow> bool" where
  "is_success (ProcessedOk n) = True"
| "is_success (Recovered n) = True"
| "is_success ev = False"

definition batch_ok :: "event list \<Rightarrow> bool" where
  "batch_ok evs = list_ex is_success evs"

definition ok_records :: "(event list \<times> json) option \<Rightarrow> json list" where
  "ok_records r =
     (case r of
        None \<Rightarrow> []
      | Some (evs, batch_results) \<Rightarrow>
          (if batch_ok evs then (case py_iter batch_results of Inl e \<Rightarrow> [] | Inr items \<Rightarrow> items)
           else []))"

text \<open>
  What a batch hands to the aggregator, whether it succeeded or not; and the calls of
  \<^verbatim>\<open>json.loads\<close> among the events of a pipeline.
\<close>

definition returned_records :: "(event list \<times> json) option \<Rightarrow> json list" where
  "returned_records r =
     (case r of
        None \<Rightarrow> []
      | Some (evs, batch_results) \<Rightarrow>
          (case py_iter batch_results of Inl e \<Rightarrow> [] | Inr items \<Rightarrow> items))"

fun is_parser_call :: "event \<Rightarrow> bool" where
  "is_parser_call (ParserCall s) = True"
| "is_parser_call ev = False"

text \<open>The elements \<^verbatim>\<open>extend\<close> appends for a value, none when it is not iterable.\<close>

definition items_of :: "json \<Rightarrow> json list" where
  "items_of v = (case py_iter v of Inl e \<Rightarrow> [] | Inr xs \<Rightarrow> xs)"

section \<open>The two concurrency tiers\<close>

text \<open>
  The item tasks of one fanout, as the event loop interleaves them. Each task runs
  \<^verbatim>\<open>process_with_semaphore\<close> (lines 134-139 of \<^verbatim>\<open>async_attendee_processor.py\<close>):
  \<^verbatim>\<open>async with semaphore\<close> takes a permit, then comes \<^verbatim>\<open>asyncio.sleep(rate_limit_delay)\<close>
  when the delay is positive, then the call of \<^verbatim>\<open>process_attendee\<close>, and leaving the
  block, by return or by exception, gives the permit back. A task is \<open>Waiting\<close> before it has its permit, \<open>Sleeping\<close>
  during the delay, \<open>Searching\<close> while its enrichment call is in flight, and \<open>Finished\<close>
  afterwards. \<open>permits\<close> is the value of the semaphore.
\<close>

datatype phase = Waiting | Sleeping | Searching | Finished

datatype fanout = Fanout (permits: nat) (tasks: "phase list")

definition init_fanout :: "nat \<Rightarrow> nat \<Rightarrow> fanout" where
  "init_fanout max_concurrent n = Fanout max_concurrent (replicate n Waiting)"

text \<open>
  One step of task \<open>i\<close>; \<open>None\<close> when the task cannot move: it waits for a permit and none is
  free, or it has finished.
\<close>

definition task_step :: "real \<Rightarrow> nat \<Rightarrow> fanout \<Rightarrow> fanout option" where
  "task_step rate_limit_delay i s =
     (if length (tasks s) \<le> i then None
      else (case tasks s ! i of
              Waiting \<Rightarrow>
                (if permits s = 0 then None
                 else Some (Fanout (permits s - 1)
                              ((tasks s)[i := (if 0 < rate_limit_delay then Sleeping
                                               else Searching)])))
            | Sleeping \<Rightarrow> Some (Fanout (permits s) ((tasks s)[i := Searching]))
            | Searching \<Rightarrow> Some (Fanout (permits s + 1) ((tasks s)[i := Finished]))
            | Finished \<Rightarrow> None))"

text \<open>A schedule is the list of the tasks that move, in order.\<close>

fun run_fanout :: "real \<Rightarrow> nat list \<Rightarrow> fanout \<Rightarrow> fanout option" where
  "run_fanout d [] s = Some s"
| "run_fanout d (i # schedule) s =
     (case task_step d i s of None \<Rightarrow> None | Some s' \<Rightarrow> run_fanout d schedule s')"

definition holds_permit :: "phase \<Rightarrow> bool" where
  "holds_permit p = (p = Sleeping \<or> p = Searching)"

definition in_flight :: "fanout \<Rightarrow> nat" where
  "in_flight s = length (filter (\<lambda>p. p = Searching) (tasks s))"

text \<open>
  The batch tasks in the thread pool of \<^verbatim>\<open>analyze\<close> (lines 493-498):
  \<^verbatim>\<open>ThreadPoolExecutor(max_workers=min(self.max_workers, self.total_batches))\<close> has that
  many worker threads, and each runs one submitted batch at a time. A batch is \<open>Queued\<close>
  until a worker takes it, then \<open>Running\<close> with the state of its fanout, then \<open>Completed\<close>.
  In the crew-based mode a batch has no item tasks.
\<close>

datatype slot = Queued | Running fanout | Completed

datatype pool_event = Start nat | Item nat nat | Finish nat

definition pool_width :: "config \<Rightarrow> attendee list \<Rightarrow> nat" where
  "pool_width cfg attendees =
     (case total_batches (int (length attendees)) (batch_size cfg) of
        Inl e \<Rightarrow> 0
      | Inr n_batches \<Rightarrow> nat (min (max_workers cfg) n_batches))"

definition batch_tasks :: "config \<Rightarrow> attendee list \<Rightarrow> nat list" where
  "batch_tasks cfg attendees =
     map (\<lambda>i. case preprocess_attendees attendees (batch_size cfg) (int i) of
                 Inl e \<Rightarrow> 0
               | Inr current_batch \<Rightarrow>
                   (if use_async_processing cfg then length current_batch else 0))
         [0..<submitted_batches cfg attendees]"

fun is_running :: "slot \<Rightarrow> bool" where
  "is_running (Running f) = True"
| "is_running s = False"

definition running :: "slot list \<Rightarrow> nat" where
  "running pool = length (filter is_running pool)"

fun slot_in_flight :: "slot \<Rightarrow> nat" where
  "slot_in_flight (Running f) = in_flight f"
| "slot_in_flight s = 0"

definition total_in_flight :: "slot list \<Rightarrow> nat" where
  "total_in_flight pool = sum_list (map slot_in_flight pool)"

text \<open>
  One event of the pool: a free worker starts a queued batch, an item task of a running
  batch moves, or a running batch whose item tasks have all finished completes. \<open>None\<close>
  when the event cannot happen in this state.
\<close>

definition pool_step ::
  "real \<Rightarrow> nat \<Rightarrow> nat \<Rightarrow> nat list \<Rightarrow> pool_event \<Rightarrow> slot list \<Rightarrow> slot list option" where
  "pool_step d max_concurrent width sizes ev pool =
     (case ev of
        Start b \<Rightarrow>
          (if b < length pool \<and> b < length sizes \<and> pool ! b = Queued \<and> running pool < width
           then Some (pool[b := Running (init_fanout max_concurrent (sizes ! b))])
           else None)
      | Item b i \<Rightarrow>
          (if b < length pool
           then (case pool ! b of
                   Running f \<Rightarrow>
                     (case task_step d i f of
                        None \<Rightarrow> None
                      | Some f' \<Rightarrow> Some (pool[b := Running f']))
                 | Queued \<Rightarrow> None
                 | Completed \<Rightarrow> None)
           else None)
      | Finish b \<Rightarrow>
          (if b < length pool
           then (case pool ! b of
                   Running f \<Rightarrow>
                     (if list_all (\<lambda>p. p = Finished) (tasks f) then Some (pool[b := Completed])
                      else None)
                 | Queued \<Rightarrow> None
                 | Completed \<Rightarrow> None)
           else None))"

fun run_pool ::
  "real \<Rightarrow> nat \<Rightarrow> nat \<Rightarrow> nat list \<Rightarrow> pool_event list \<Rightarrow> slot list \<Rightarrow> slot list option" where
  "run_pool d c width sizes [] pool = Some pool"
| "run_pool d c width sizes (ev # evs) pool =
     (case pool_step d c width sizes ev pool of
        None \<Rightarrow> None
      | Some pool' \<Rightarrow> run_pool d c width sizes evs pool')"

text \<open>
  The invariant of a fanout: every permit is either free or held by a task that is sleeping
  or searching. And the invariant of the pool: no more batches run than there are workers,
  and every running fanout satisfies its own invariant.
\<close>

definition balanced :: "nat \<Rightarrow> fanout \<Rightarrow> bool" where
  "balanced c s = (permits s + length (filter holds_permit (tasks s)) = c)"

definition pool_ok :: "nat \<Rightarrow> nat \<Rightarrow> slot list \<Rightarrow> bool" where
  "pool_ok c width pool = (running pool \<le> width \<and> (\<forall>f. Running f \<in> set pool \<longrightarrow> balanced c f))"

section \<open>Example inputs\<close>

text \<open>Concrete inputs at which the theorems below are instantiated.\<close>

definition ex_attendees :: "attendee list" where
  "ex_attendees = [[''first_name'' \<mapsto> PStr ''Ann'', ''email'' \<mapsto> PStr ''ann@acme.io''],
                   [''first_name'' \<mapsto> PStr ''Bob'', ''email'' \<mapsto> PStr ''bob'']]"

definition ex_tools :: "nat \<Rightarrow> string \<Rightarrow> exn + string" where
  "ex_tools i q = (if i = 0 then Inl (Exception ''timeout'') else Inr ''found'')"

text \<open>
  A fragment of \<^verbatim>\<open>json.loads\<close> for the examples: it parses the two texts the examples need
  and rejects the malformed ones they use.
\<close>

definition ex_loads :: "string \<Rightarrow> json option" where
  \<open>ex_loads s =
     (if s = ''[]'' then Some (JArr [])
      else if s = ''["a"]'' then Some (JArr [JStr ''a''])
      else None)\<close>

definition ex_world :: collaborators where
  \<open>ex_world =
     \<lparr>search = (\<lambda>b i q. Inr ''found''),
      build = (\<lambda>b. None),
      kickoff = (\<lambda>b. if b = 1 then Inl (Exception ''boom'')
                     else if b = 2 then Inl (Exception ''AgentOps: NoApiKeyException'')
                     else Inr ''```json ["a"] ```''),
      loads = ex_loads\<rparr>\<close>

text \<open>
  A classification call that answers with a single JSON object instead of an array, and
  the value \<^verbatim>\<open>json.loads\<close> gives for that text.
\<close>

definition ex_object_world :: collaborators where
  \<open>ex_object_world =
     \<lparr>search = (\<lambda>b i q. Inr ''found''),
      build = (\<lambda>b. None),
      kickoff = (\<lambda>b. Inr ''{"person_name": "Ann Lee", "industry_association": "Healthcare"}''),
      loads = (\<lambda>s. if s = ''{"person_name": "Ann Lee", "industry_association": "Healthcare"}''
                     then Some (JObj [(''person_name'', JStr ''Ann Lee''),
                                      (''industry_association'', JStr ''Healthcare'')])
                     else None)\<rparr>\<close>

definition ex_config :: config where
  "ex_config =
     \<lparr>batch_size = 1, max_workers = 3, max_concurrent_searches = 5,
      use_async_processing = True\<rparr>"

text \<open>
  Five attendees in batches of two, on two workers with one permit per fanout.
\<close>

definition ex_pool_config :: config where
  "ex_pool_config =
     \<lparr>batch_size = 2, max_workers = 2, max_concurrent_searches = 1,
      use_async_processing = True\<rparr>"

definition ex_five :: "attendee list" where
  "ex_five = replicate 5 Map.empty"

section \<open>Properties of batch planning\<close>

lemma py_bound_nonneg: "0 \<le> a \<Longrightarrow> py_bound n a = min (nat a) n"
  by (simp add: py_bound_def)

lemma py_slice_nonneg:
  "0 \<le> a \<Longrightarrow> 0 \<le> b \<Longrightarrow> py_slice xs a b = take (min (nat b) (length xs) - min (nat a) (length xs)) (drop (min (nat a) (length xs)) xs)"
  by (simp add: py_slice_def py_bound_nonneg Let_def)

lemma preprocess_attendees_pos:
  assumes "0 < B"
  shows "preprocess_attendees xs B (int i) = Inr (take (nat B) (drop (i * nat B) xs))"
proof -
  obtain b where b: "B = int b" "0 < b"
    using assms by (metis zero_less_imp_eq_int)
  have "py_slice xs (int i * int b) (min (int i * int b + int b) (int (length xs)))
        = take b (drop (i * b) xs)"
  proof -
    have a: "(0::int) \<le> int i * int b" by simp
    have c: "(0::int) \<le> min (int i * int b + int b) (int (length xs))" by simp
    have e1: "nat (int i * int b) = i * b" by (simp add: nat_mult_distrib)
    have e2: "nat (min (int i * int b + int b) (int (length xs))) = min (i * b + b) (length xs)"
    proof -
      have "int i * int b + int b = int (i * b + b)"
        by simp
      then have "min (int i * int b + int b) (int (length xs)) = int (min (i * b + b) (length xs))"
        by (simp only: of_nat_min)
      then show ?thesis by (simp only: nat_int)
    qed
    show ?thesis
      unfolding py_slice_nonneg[OF a c] e1 e2
      by (cases "i * b \<le> length xs") (simp_all add: min_def)
  qed
  then show ?thesis
    using b by (simp add: preprocess_attendees_def Let_def)
qed

lemma concat_slices:
  "b > 0 \<Longrightarrow> k * b \<ge> length xs \<Longrightarrow>
   concat (map (\<lambda>i. take b (drop (i * b) xs)) [0..<k]) = xs"
proof (induction k arbitrary: xs)
  case 0
  then show ?case by simp
next
  case (Suc k)
  have "concat (map (\<lambda>i. take b (drop (i * b) xs)) [0..<Suc k])
        = take b xs @ concat (map (\<lambda>i. take b (drop (Suc i * b) xs)) [0..<k])"
    by (simp only: upt_conv_Cons[of 0 "Suc k"] map_Suc_upt[symmetric]) (simp add: comp_def)
  also have "(\<lambda>i. take b (drop (Suc i * b) xs)) = (\<lambda>i. take b (drop (i * b) (drop b xs)))"
    by (simp add: add.commute)
  also have "concat (map (\<lambda>i. take b (drop (i * b) (drop b xs))) [0..<k]) = drop b xs"
    using Suc.prems by (intro Suc.IH) auto
  finally show ?case by simp
qed

lemma ceil_div_neg:
  assumes "0 < (B::int)"
  shows "(N + B - 1) div B = - ((- N) div B)"
proof -
  define q r where "q = N div B" and "r = N mod B"
  have N: "N = q * B + r" and r: "0 \<le> r" "r < B"
    using assms by (simp_all add: q_def r_def)
  show ?thesis
  proof (cases "r = 0")
    case True
    have "(N + B - 1) div B = (B - 1 + q * B) div B" using N True by (simp add: algebra_simps)
    also have "\<dots> = (B - 1) div B + q" using assms by simp
    also have "(B - 1) div B = 0" using assms by (simp add: div_pos_pos_trivial)
    finally have a: "(N + B - 1) div B = q" by simp
    have "(- N) div B = (0 + (- q) * B) div B" using N True by simp
    also have "\<dots> = 0 div B + (- q)" using assms by (subst div_mult_self1) simp_all
    finally show ?thesis using a by simp
  next
    case False
    have "(N + B - 1) div B = (r - 1 + (q + 1) * B) div B" using N by (simp add: algebra_simps)
    also have "\<dots> = (r - 1) div B + (q + 1)" using assms by simp
    also have "(r - 1) div B = 0" using assms r False by (simp add: div_pos_pos_trivial)
    finally have a: "(N + B - 1) div B = q + 1" by simp
    have "(- N) div B = (B - r + (- q - 1) * B) div B" using N by (simp add: algebra_simps)
    also have "\<dots> = (B - r) div B + (- q - 1)" using assms by simp
    also have "(B - r) div B = 0" using assms r False by (simp add: div_pos_pos_trivial)
    finally show ?thesis using a by simp
  qed
qed

lemma ceil_div_int:
  assumes "0 < (B::int)"
  shows "(N + B - 1) div B = \<lceil>real_of_int N / real_of_int B\<rceil>"
  using ceil_div_neg[OF assms, of N] by (simp add: ceiling_divide_eq_div)


lemma nat_batches:
  fixes b N :: nat
  assumes "0 < b"
  defines "k \<equiv> (N + b - 1) div b"
  shows "N \<le> k * b"
    and "i + 1 = k \<Longrightarrow> N - i * b = (if N mod b = 0 then b else N mod b)"
    and "i < k \<Longrightarrow> i * b < N"
proof -
  define q r where "q = N div b" and "r = N mod b"
  have N: "N = q * b + r" and r: "r < b"
    using assms by (simp_all add: q_def r_def)
  have k: "k = (if r = 0 then q else q + 1)"
  proof (cases "r = 0")
    case True
    have "(N + b - 1) div b = q"
      using N True assms by (intro div_nat_eqI) (auto simp: algebra_simps)
    then show ?thesis using True by (simp add: k_def)
  next
    case False
    have "(N + b - 1) div b = q + 1"
      using N False assms r by (intro div_nat_eqI) (auto simp: algebra_simps)
    then show ?thesis using False by (simp add: k_def)
  qed
  show "N \<le> k * b" using k N r by (auto simp: algebra_simps)
  show "N - i * b = (if N mod b = 0 then b else N mod b)" if "i + 1 = k"
  proof (cases "r = 0")
    case True
    then have "q = i + 1" using that k by simp
    then show ?thesis using N True r_def by simp
  next
    case False
    then have "q = i" using that k by simp
    then show ?thesis using N False r_def by simp
  qed
  show "i * b < N" if "i < k"
  proof (cases "r = 0")
    case True
    then have "i < q" using that k by simp
    then have "i * b < q * b" using assms by simp
    then have "i * b < q * b + r" by (rule trans_less_add1)
    then show ?thesis by (subst N)
  next
    case False
    then have "i \<le> q" using that k by simp
    then have "i * b \<le> q * b" by (rule mult_le_mono1)
    then have "i * b < q * b + r" using False by linarith
    then show ?thesis by (subst N)
  qed
qed

lemma nat_total_batches:
  assumes "0 < B"
  shows "nat ((int N + B - 1) div B) = (N + nat B - 1) div nat B"
proof -
  obtain b where b: "B = int b" "0 < b"
    using assms by (metis zero_less_imp_eq_int)
  have "int N + int b - 1 = int (N + b - 1)" using b by (simp add: of_nat_diff)
  then have "(int N + int b - 1) div int b = int ((N + b - 1) div b)"
    by (simp only: zdiv_int)
  then show ?thesis using b by simp
qed

text \<open>
  Claim C2. For an attendee list of length \<open>N\<close> and a batch size \<open>B > 0\<close> the engine plans
  \<open>\<lceil>N / B\<rceil>\<close> batches. Batch \<open>i\<close> is the slice of the input from index \<open>i * B\<close> to
  \<open>min ((i + 1) * B) N\<close>: it has that length and its \<open>j\<close>-th element is element \<open>i * B + j\<close> of
  the input. Every batch but the last has \<open>B\<close> elements, the last has \<open>N mod B\<close> elements
  (\<open>B\<close> when \<open>B\<close> divides \<open>N\<close>), and the batches in order concatenate to the input, so
  they partition it with no overlap and no gap.
\<close>

theorem batches_partition_input:
  assumes "0 < B"
  shows "total_batches (int (length xs)) B = Inr \<lceil>real (length xs) / real_of_int B\<rceil>
    \<and> (\<forall>i. int i < \<lceil>real (length xs) / real_of_int B\<rceil> \<longrightarrow>
          (\<exists>batch. preprocess_attendees xs B (int i) = Inr batch
             \<and> length batch = min ((i + 1) * nat B) (length xs) - i * nat B
             \<and> (\<forall>j < length batch. batch ! j = xs ! (i * nat B + j))
             \<and> 0 < length batch
             \<and> (int (i + 1) < \<lceil>real (length xs) / real_of_int B\<rceil> \<longrightarrow> length batch = nat B)
             \<and> (int (i + 1) = \<lceil>real (length xs) / real_of_int B\<rceil> \<longrightarrow>
                   length batch = (if length xs mod nat B = 0 then nat B else length xs mod nat B))))
    \<and> concat (map (\<lambda>i. case preprocess_attendees xs B (int i) of Inr batch \<Rightarrow> batch | Inl e \<Rightarrow> [])
          [0..<nat \<lceil>real (length xs) / real_of_int B\<rceil>]) = xs"
proof -
  define b where "b = nat B"
  define N where "N = length xs"
  define k where "k = (N + b - 1) div b"
  have b: "0 < b" using assms by (simp add: b_def)
  have ceil: "\<lceil>real (length xs) / real_of_int B\<rceil> = int k"
  proof -
    have "\<lceil>real_of_int (int N) / real_of_int B\<rceil> = (int N + B - 1) div B"
      using ceil_div_int[OF assms, of "int N"] by simp
    moreover have "0 \<le> (int N + B - 1) div B"
      using assms by (simp add: pos_imp_zdiv_nonneg_iff)
    ultimately show ?thesis
      using nat_total_batches[OF assms, of N] by (simp add: k_def b_def N_def)
  qed
  have tb: "total_batches (int (length xs)) B = Inr (int k)"
    using assms ceil ceil_div_int[OF assms, of "int N"] by (simp add: total_batches_def N_def)
  have pre: "preprocess_attendees xs B (int i) = Inr (take b (drop (i * b) xs))" for i
    using preprocess_attendees_pos[OF assms] by (simp add: b_def)
  have cover: "N \<le> k * b" unfolding k_def by (rule nat_batches(1)[OF b])
  have batch: "length (take b (drop (i * b) xs)) = min ((i + 1) * b) N - i * b
      \<and> (\<forall>j < length (take b (drop (i * b) xs)). take b (drop (i * b) xs) ! j = xs ! (i * b + j))
      \<and> 0 < length (take b (drop (i * b) xs))
      \<and> (i + 1 < k \<longrightarrow> length (take b (drop (i * b) xs)) = b)
      \<and> (i + 1 = k \<longrightarrow> length (take b (drop (i * b) xs)) = (if N mod b = 0 then b else N mod b))"
    if "i < k" for i
  proof -
    have lt: "i * b < N" using that unfolding k_def by (rule nat_batches(3)[OF b])
    have len: "length (take b (drop (i * b) xs)) = min b (N - i * b)"
      unfolding N_def by simp
    have 1: "length (take b (drop (i * b) xs)) = min ((i + 1) * b) N - i * b"
      unfolding len using lt by (auto simp: min_def)
    have 2: "take b (drop (i * b) xs) ! j = xs ! (i * b + j)" if "j < length (take b (drop (i * b) xs))" for j
    proof -
      have "i * b \<le> length xs" using lt unfolding N_def by simp
      then show ?thesis using that by simp
    qed
    have 3: "0 < length (take b (drop (i * b) xs))" unfolding len using lt b by simp
    have 4: "length (take b (drop (i * b) xs)) = b" if "i + 1 < k"
    proof -
      have "(i + 1) * b < N" using that unfolding k_def by (rule nat_batches(3)[OF b])
      then show ?thesis unfolding len by simp
    qed
    have 5: "length (take b (drop (i * b) xs)) = (if N mod b = 0 then b else N mod b)" if "i + 1 = k"
    proof -
      have e: "N - i * b = (if N mod b = 0 then b else N mod b)"
        using that unfolding k_def by (rule nat_batches(2)[OF b])
      have "N mod b < b" using b by simp
      then show ?thesis unfolding len e by (simp add: min_def)
    qed
    show ?thesis using 1 2 3 4 5 by blast
  qed
  have cat: "concat (map (\<lambda>i. case preprocess_attendees xs B (int i) of Inr batch \<Rightarrow> batch | Inl e \<Rightarrow> []) [0..<k]) = xs"
    using concat_slices[OF b, of xs k] cover by (simp add: pre N_def)
  show ?thesis
  proof (intro conjI allI impI)
    show "total_batches (int (length xs)) B = Inr \<lceil>real (length xs) / real_of_int B\<rceil>"
      using tb ceil by simp
  next
    fix i
    assume "int i < \<lceil>real (length xs) / real_of_int B\<rceil>"
    then have ik: "i < k" using ceil by simp
    have ceil': "\<lceil>real N / real_of_int B\<rceil> = int k"
      using ceil by (simp add: N_def)
    show "\<exists>batch. preprocess_attendees xs B (int i) = Inr batch
             \<and> length batch = min ((i + 1) * nat B) (length xs) - i * nat B
             \<and> (\<forall>j < length batch. batch ! j = xs ! (i * nat B + j))
             \<and> 0 < length batch
             \<and> (int (i + 1) < \<lceil>real (length xs) / real_of_int B\<rceil> \<longrightarrow> length batch = nat B)
             \<and> (int (i + 1) = \<lceil>real (length xs) / real_of_int B\<rceil> \<longrightarrow>
                   length batch = (if length xs mod nat B = 0 then nat B else length xs mod nat B))"
      unfolding b_def[symmetric] N_def[symmetric] ceil' of_nat_less_iff of_nat_eq_iff
      by (rule exI[of _ "take b (drop (i * b) xs)"], rule conjI[OF pre batch[OF ik]])
  next
    show "concat (map (\<lambda>i. case preprocess_attendees xs B (int i) of Inr batch \<Rightarrow> batch | Inl e \<Rightarrow> [])
          [0..<nat \<lceil>real (length xs) / real_of_int B\<rceil>]) = xs"
      unfolding ceil using cat by simp
  qed
qed

theorem batches_partition_input_witness:
  "(0::int) < 3 \<and> total_batches 7 3 = Inr 3
   \<and> map (\<lambda>i. preprocess_attendees [1, 2, 3, 4, 5, 6, 7 :: nat] 3 (int i)) [0, 1, 2]
       = [Inr [1, 2, 3], Inr [4, 5, 6], Inr [7]]
   \<and> concat (map (\<lambda>i. case preprocess_attendees [1, 2, 3, 4, 5, 6, 7 :: nat] 3 (int i) of Inr batch \<Rightarrow> batch | Inl e \<Rightarrow> [])
          [0..<nat \<lceil>real (length [1, 2, 3, 4, 5, 6, 7 :: nat]) / real_of_int 3\<rceil>]) = [1, 2, 3, 4, 5, 6, 7]"
proof -
  have h: "(0::int) < 3" by simp
  have e: "map (\<lambda>i. preprocess_attendees [1, 2, 3, 4, 5, 6, 7 :: nat] 3 (int i)) [0, 1, 2]
       = [Inr [1, 2, 3], Inr [4, 5, 6], Inr [7]]"
    by (simp add: preprocess_attendees_def py_slice_def py_bound_def)
  have t: "total_batches 7 3 = Inr 3" by (simp add: total_batches_def)
  have c: "concat (map (\<lambda>i. case preprocess_attendees [1, 2, 3, 4, 5, 6, 7 :: nat] 3 (int i) of Inr batch \<Rightarrow> batch | Inl e \<Rightarrow> [])
          [0..<nat \<lceil>real (length [1, 2, 3, 4, 5, 6, 7 :: nat]) / real_of_int 3\<rceil>]) = [1, 2, 3, 4, 5, 6, 7]"
    using batches_partition_input[OF h, of "[1, 2, 3, 4, 5, 6, 7 :: nat]"] by (elim conjE)
  show ?thesis using h e t c by (intro conjI)
qed


section \<open>Properties of the derived domain\<close>

lemma py_split_not_Nil: "py_split c s \<noteq> []"
  by (induction s) (auto split: list.splits)

lemma py_split_no_sep: "c \<notin> set s \<Longrightarrow> py_split c s = [s]"
  by (induction s) auto

lemma py_split_sep: "c \<in> set s \<Longrightarrow> 2 \<le> length (py_split c s)"
proof (induction s)
  case Nil
  then show ?case by simp
next
  case (Cons x xs)
  then show ?case
    using py_split_not_Nil[of c xs] by (cases "py_split c xs") (auto split: list.splits)
qed

lemma last_py_split: "last (py_split c s) = rev (takeWhile (\<lambda>x. x \<noteq> c) (rev s))"
proof (induction s)
  case Nil
  then show ?case by simp
next
  case (Cons x xs)
  show ?case
  proof (cases "x = c")
    case True
    then show ?thesis
      using Cons py_split_not_Nil[of c xs] by (auto simp: takeWhile_append)
  next
    case False
    show ?thesis
    proof (cases "c \<in> set xs")
      case True
      then obtain w ws where p: "py_split c xs = w # ws"
        using py_split_not_Nil[of c xs] by (cases "py_split c xs") auto
      have "ws \<noteq> []" using py_split_sep[OF True] p by auto
      then show ?thesis using Cons p False True by (auto simp: takeWhile_append)
    next
      case no: False
      then show ?thesis using False by (simp add: py_split_no_sep takeWhile_append)
    qed
  qed
qed

lemma after_last_at_eq: "after_last_at s = rev (takeWhile (\<lambda>c. c \<noteq> CHR ''@'') (rev s))"
  by (simp add: after_last_at_def last_py_split)

lemma after_last_at_no_at: "CHR ''@'' \<notin> set s \<Longrightarrow> after_last_at s = s"
  by (simp add: after_last_at_def py_split_no_sep)

lemma process_attendee_except_str:
  assumes "dict_get a ''email'' = PStr s"
  shows "process_attendee_except a e =
     Inr \<lparr>person_name = person_name_of a,
          organization = py_or (dict_get a ''organization'') ''Unknown'',
          email = s,
          company_domain = (if CHR ''@'' \<in> set s then after_last_at s else ''unknown.com''),
          search_result = ''Error: '' @ str_of_exn e\<rparr>"
  using assms by (simp add: process_attendee_except_def)

lemma process_attendee_str:
  assumes "dict_get a ''email'' = PStr s"
  shows "process_attendee tool a =
     (case tool (search_query (person_name_of a) (dict_get a ''organization'')) of
        Inl e \<Rightarrow>
          Inr \<lparr>person_name = person_name_of a,
               organization = py_or (dict_get a ''organization'') ''Unknown'',
               email = s,
               company_domain = (if CHR ''@'' \<in> set s then after_last_at s else ''unknown.com''),
               search_result = ''Error: '' @ str_of_exn e\<rparr>
      | Inr found \<Rightarrow>
          Inr \<lparr>person_name = person_name_of a,
               organization = py_or (dict_get a ''organization'') ''Unknown'',
               email = s,
               company_domain =
                 (if CHR ''@'' \<in> set s \<and> after_last_at s \<noteq> [] then after_last_at s
                  else ''unknown.com''),
               search_result = found\<rparr>)"
  using assms
  by (simp add: process_attendee_def process_attendee_except_str[OF assms] Let_def split: sum.splits)

lemma gather_Inr:
  "gather rs = Inr ys \<Longrightarrow> length ys = length rs \<and> (\<forall>i < length rs. rs ! i = Inr (ys ! i))"
proof (induction rs arbitrary: ys)
  case Nil
  then show ?case by simp
next
  case (Cons r rs)
  then show ?case
    by (cases r) (auto split: sum.splits simp: nth_Cons split: nat.splits)
qed

lemma gather_all_Inr:
  "(\<forall>r \<in> set rs. \<exists>y. r = Inr y) \<Longrightarrow> \<exists>ys. gather rs = Inr ys"
proof (induction rs)
  case Nil
  then show ?case by simp
next
  case (Cons r rs)
  then show ?case by (cases r) (auto split: sum.splits)
qed

lemma process_attendees_Returns:
  assumes "process_attendees C tools attendees = Returns results"
  shows "length results = length attendees \<and>
         (\<forall>i < length attendees. process_attendee (tools i) (attendees ! i) = Inr (results ! i))"
proof (cases "attendees = []")
  case True
  then show ?thesis using assms by (simp add: process_attendees_def)
next
  case False
  then have "gather (map (\<lambda>i. process_attendee (tools i) (attendees ! i)) [0..<length attendees])
      = Inr results"
    using assms by (auto simp: process_attendees_def split: if_splits sum.splits)
  from gather_Inr[OF this] show ?thesis by simp
qed

lemma process_attendees_total:
  assumes "0 < C" and "\<forall>a \<in> set attendees. \<exists>s. dict_get a ''email'' = PStr s"
  shows "\<exists>results. process_attendees C tools attendees = Returns results"
proof (cases "attendees = []")
  case True
  then show ?thesis by (simp add: process_attendees_def)
next
  case False
  have "\<forall>r \<in> set (map (\<lambda>i. process_attendee (tools i) (attendees ! i)) [0..<length attendees]).
          \<exists>y. r = Inr y"
  proof
    fix r
    assume "r \<in> set (map (\<lambda>i. process_attendee (tools i) (attendees ! i)) [0..<length attendees])"
    then obtain i where i: "i < length attendees" and r: "r = process_attendee (tools i) (attendees ! i)"
      by auto
    from i assms(2) obtain s where "dict_get (attendees ! i) ''email'' = PStr s"
      using nth_mem by blast
    from process_attendee_str[OF this, of "tools i"] show "\<exists>y. r = Inr y"
      unfolding r by (auto split: sum.splits)
  qed
  from gather_all_Inr[OF this] obtain ys where
    "gather (map (\<lambda>i. process_attendee (tools i) (attendees ! i)) [0..<length attendees]) = Inr ys"
    by blast
  then show ?thesis using False assms(1) by (simp add: process_attendees_def)
qed

text \<open>
  Claim C3, as amended. For an attendee whose email is a string, \<^verbatim>\<open>process_attendee\<close> returns
  a result and raises nothing. Its \<^verbatim>\<open>company_domain\<close> is the part of the email after the
  last \<open>@\<close> (not the part between \<open>@\<close> and the first dot), and the sentinel
  \<^verbatim>\<open>unknown.com\<close> when the email has no \<open>@\<close>; the sentinel is also used when nothing
  follows the last \<open>@\<close> and the search returned.
\<close>

theorem company_domain_after_last_at:
  assumes "dict_get a ''email'' = PStr s"
  shows "\<exists>r. process_attendee tool a = Inr r
     \<and> email r = s
     \<and> company_domain r =
         (if CHR ''@'' \<notin> set s then ''unknown.com''
          else if rev (takeWhile (\<lambda>c. c \<noteq> CHR ''@'') (rev s)) = []
                  \<and> \<not> isl (tool (search_query (person_name_of a) (dict_get a ''organization'')))
            then ''unknown.com''
          else rev (takeWhile (\<lambda>c. c \<noteq> CHR ''@'') (rev s)))"
  unfolding process_attendee_str[OF assms] after_last_at_eq[symmetric]
  by (cases "tool (search_query (person_name_of a) (dict_get a ''organization''))") auto

theorem company_domain_after_last_at_witness:
  "dict_get [''organization'' \<mapsto> PStr [], ''email'' \<mapsto> PStr ''x@acme.io''] ''email'' = PStr ''x@acme.io''
   \<and> (\<exists>r. process_attendee (\<lambda>q. Inr ''found'') [''organization'' \<mapsto> PStr [], ''email'' \<mapsto> PStr ''x@acme.io''] = Inr r
         \<and> email r = ''x@acme.io'' \<and> company_domain r = ''acme.io'')"
proof -
  have h: "dict_get [''organization'' \<mapsto> PStr [], ''email'' \<mapsto> PStr ''x@acme.io''] ''email'' = PStr ''x@acme.io''"
    by (simp add: dict_get_def)
  from company_domain_after_last_at[OF h, of "\<lambda>q. Inr ''found''"] h
  show ?thesis by simp
qed

text \<open>
  The claim as stated fails: for the email \<^verbatim>\<open>x@acme.io\<close> the derived domain is
  \<^verbatim>\<open>acme.io\<close>, not \<^verbatim>\<open>acme\<close>.
\<close>

theorem company_domain_counterexample:
  "(case process_attendee (\<lambda>q. Inr ''found'') [''organization'' \<mapsto> PStr [], ''email'' \<mapsto> PStr ''x@acme.io''] of
      Inl e \<Rightarrow> [] | Inr r \<Rightarrow> company_domain r) = ''acme.io''"
  by (simp add: process_attendee_def dict_get_def after_last_at_def Let_def)


section \<open>Properties of the item fanout\<close>

text \<open>
  Where every email is a string (or missing) and there is at least one permit,
  \<^verbatim>\<open>process_attendees\<close> returns exactly one outcome per attendee, the \<open>i\<close>-th being that of
  the \<open>i\<close>-th attendee. Where the search of an item raises, its outcome is the synthesized
  one whose \<^verbatim>\<open>search_result\<close> is \<^verbatim>\<open>Error: \<close> followed by the text of the exception; where
  it returns, the outcome carries the text found. The repository's own tool never raises: a
  failure of the remote call becomes the text \<^verbatim>\<open>Error performing web search: ...\<close>.
\<close>

theorem fanout_one_outcome_per_item:
  assumes "0 < C" and "\<forall>a \<in> set attendees. \<exists>s. dict_get a ''email'' = PStr s"
  shows "\<exists>results. process_attendees C tools attendees = Returns results
     \<and> length results = length attendees
     \<and> (\<forall>i < length attendees.
           process_attendee (tools i) (attendees ! i) = Inr (results ! i)
         \<and> (\<forall>e. tools i (search_query (person_name_of (attendees ! i))
                              (dict_get (attendees ! i) ''organization'')) = Inl e
               \<longrightarrow> search_result (results ! i) = ''Error: '' @ str_of_exn e)
         \<and> (\<forall>found. tools i (search_query (person_name_of (attendees ! i))
                              (dict_get (attendees ! i) ''organization'')) = Inr found
               \<longrightarrow> search_result (results ! i) = found))
     \<and> (\<forall>client query e. client query = Inl e \<longrightarrow>
           execute_async client query = Inr (''Error performing web search: '' @ str_of_exn e))"
proof -
  from process_attendees_total[OF assms] obtain results where
    r: "process_attendees C tools attendees = Returns results" by blast
  note ord = process_attendees_Returns[OF r]
  have item: "process_attendee (tools i) (attendees ! i) = Inr (results ! i)
         \<and> (\<forall>e. tools i (search_query (person_name_of (attendees ! i))
                              (dict_get (attendees ! i) ''organization'')) = Inl e
               \<longrightarrow> search_result (results ! i) = ''Error: '' @ str_of_exn e)
         \<and> (\<forall>found. tools i (search_query (person_name_of (attendees ! i))
                              (dict_get (attendees ! i) ''organization'')) = Inr found
               \<longrightarrow> search_result (results ! i) = found)"
    if i: "i < length attendees" for i
  proof -
    from i assms(2) obtain s where s: "dict_get (attendees ! i) ''email'' = PStr s"
      using nth_mem by blast
    have p: "process_attendee (tools i) (attendees ! i) = Inr (results ! i)"
      using ord i by blast
    show ?thesis
    proof (cases "tools i (search_query (person_name_of (attendees ! i))
                              (dict_get (attendees ! i) ''organization''))")
      case (Inl e)
      have "Inr (results ! i) = process_attendee (tools i) (attendees ! i)"
        using p by simp
      then have "search_result (results ! i) = ''Error: '' @ str_of_exn e"
        by (simp add: process_attendee_str[OF s] Inl)
      with p Inl show ?thesis by simp
    next
      case (Inr found)
      have "Inr (results ! i) = process_attendee (tools i) (attendees ! i)"
        using p by simp
      then have "search_result (results ! i) = found"
        by (simp add: process_attendee_str[OF s] Inr)
      with p Inr show ?thesis by simp
    qed
  qed
  have tool: "\<forall>client query e. client query = Inl e \<longrightarrow>
           execute_async client query = Inr (''Error performing web search: '' @ str_of_exn e)"
    by (simp add: execute_async_def run_async_def)
  show ?thesis
    using r ord item tool by blast
qed

theorem fanout_one_outcome_per_item_witness:
  "(0::int) < 5
   \<and> list_all (\<lambda>a. dict_get a ''email'' \<in> {PStr ''ann@acme.io'', PStr ''bob''}) ex_attendees
   \<and> (\<exists>results. process_attendees 5 ex_tools ex_attendees = Returns results
         \<and> length results = 2
         \<and> search_result (results ! 0) = ''Error: timeout''
         \<and> search_result (results ! 1) = ''found'')"
proof -
  have c: "(0::int) < 5" by simp
  have a: "\<forall>a \<in> set ex_attendees. \<exists>s. dict_get a ''email'' = PStr s"
    by (simp add: ex_attendees_def dict_get_def)
  have l: "list_all (\<lambda>a. dict_get a ''email'' \<in> {PStr ''ann@acme.io'', PStr ''bob''}) ex_attendees"
    by (simp add: ex_attendees_def dict_get_def)
  from fanout_one_outcome_per_item[OF c a, of ex_tools] obtain results where
    r: "process_attendees 5 ex_tools ex_attendees = Returns results"
    and n: "length results = length ex_attendees"
    and i: "\<forall>i < length ex_attendees.
           process_attendee (ex_tools i) (ex_attendees ! i) = Inr (results ! i)
         \<and> (\<forall>e. ex_tools i (search_query (person_name_of (ex_attendees ! i))
                              (dict_get (ex_attendees ! i) ''organization'')) = Inl e
               \<longrightarrow> search_result (results ! i) = ''Error: '' @ str_of_exn e)
         \<and> (\<forall>found. ex_tools i (search_query (person_name_of (ex_attendees ! i))
                              (dict_get (ex_attendees ! i) ''organization'')) = Inr found
               \<longrightarrow> search_result (results ! i) = found)"
    by blast
  have n2: "length results = 2" using n by (simp add: ex_attendees_def)
  have "(0::nat) < length ex_attendees" by (simp add: ex_attendees_def)
  with i have "search_result (results ! 0) = ''Error: '' @ str_of_exn (Exception ''timeout'')"
    by (simp add: ex_tools_def)
  then have s0: "search_result (results ! 0) = ''Error: timeout''" by simp
  have "(1::nat) < length ex_attendees" by (simp add: ex_attendees_def)
  with i have s1: "search_result (results ! 1) = ''found''"
    by (simp add: ex_tools_def)
  show ?thesis using c l r n2 s0 s1 by blast
qed

text \<open>
  Claim C4 states that every item of a batch gets exactly one outcome and that an item whose
  enrichment throws gets a synthesized outcome carrying the error text, instead of the
  whole batch failing. The code misses this for an item whose email is \<^verbatim>\<open>None\<close>: line 62
  raises a \<^verbatim>\<open>TypeError\<close> inside the \<^verbatim>\<open>try\<close> block, and the handler at lines 105-114, whose
  comment says that it returns a minimal result with the error, evaluates
  \<^verbatim>\<open>'@' in attendee.get('email', '')\<close> again and raises the same error itself. The item
  gets no outcome, \<^verbatim>\<open>gather\<close> passes the exception on, the fanout of the whole batch
  raises, and the batch pipeline returns no record.
\<close>

theorem fanout_raises_on_none_email:
  "process_attendee (\<lambda>q. Inr ''found'') [''first_name'' \<mapsto> PStr ''Bob'', ''email'' \<mapsto> PNone]
     = Inl (Exception ''argument of type 'NoneType' is not iterable'')
   \<and> process_attendees 5 (\<lambda>i q. Inr ''found'')
       [[''first_name'' \<mapsto> PStr ''Ann'', ''email'' \<mapsto> PStr ''ann@acme.io''],
        [''first_name'' \<mapsto> PStr ''Bob'', ''email'' \<mapsto> PNone]]
     = Raises (Exception ''argument of type 'NoneType' is not iterable'')
   \<and> process_batch_async ex_world ex_config
       [[''first_name'' \<mapsto> PStr ''Ann'', ''email'' \<mapsto> PStr ''ann@acme.io''],
        [''first_name'' \<mapsto> PStr ''Bob'', ''email'' \<mapsto> PNone]] 0
     = Some ([PipelineError ''argument of type 'NoneType' is not iterable''], JArr [])"
proof -
  have 1: "process_attendee (\<lambda>q. Inr ''found'') [''first_name'' \<mapsto> PStr ''Bob'', ''email'' \<mapsto> PNone]
     = Inl (Exception ''argument of type 'NoneType' is not iterable'')"
    by (simp add: process_attendee_def process_attendee_except_def dict_get_def Let_def)
  have 2: "process_attendees 5 (\<lambda>i q. Inr ''found'')
       [[''first_name'' \<mapsto> PStr ''Ann'', ''email'' \<mapsto> PStr ''ann@acme.io''],
        [''first_name'' \<mapsto> PStr ''Bob'', ''email'' \<mapsto> PNone]]
     = Raises (Exception ''argument of type 'NoneType' is not iterable'')"
    by (simp add: process_attendees_def process_attendee_def process_attendee_except_def
      dict_get_def Let_def upt_rec)
  have 3: "process_batch_async ex_world ex_config
       [[''first_name'' \<mapsto> PStr ''Ann'', ''email'' \<mapsto> PStr ''ann@acme.io''],
        [''first_name'' \<mapsto> PStr ''Bob'', ''email'' \<mapsto> PNone]] 0
     = Some ([PipelineError ''argument of type 'NoneType' is not iterable''], JArr [])"
    using 2 by (simp add: process_batch_async_def ex_world_def ex_config_def)
  from 1 2 3 show ?thesis by (intro conjI)
qed

text \<open>
  Claim C10. The empty list returns the empty list. Whenever \<^verbatim>\<open>process_attendees\<close> returns,
  the returned list has the length of the input and its \<open>i\<close>-th element is the outcome of the
  \<open>i\<close>-th attendee; and it does return when there is at least one permit and every email is
  a string.
\<close>

theorem process_attendees_preserves_order:
  "process_attendees C tools [] = Returns []
   \<and> (\<forall>results. process_attendees C tools attendees = Returns results \<longrightarrow>
         length results = length attendees
         \<and> (\<forall>i < length attendees.
               process_attendee (tools i) (attendees ! i) = Inr (results ! i)))
   \<and> (0 < C \<and> (\<forall>a \<in> set attendees. \<exists>s. dict_get a ''email'' = PStr s) \<longrightarrow>
         (\<exists>results. process_attendees C tools attendees = Returns results))"
  using process_attendees_Returns process_attendees_total
  by (simp add: process_attendees_def)

theorem process_attendees_preserves_order_witness:
  "process_attendees 5 (\<lambda>i q. Inr q) [] = Returns []
   \<and> (\<exists>results. process_attendees 5 (\<lambda>i q. Inr (''answer '' @ (if i = 0 then ''A'' else ''B'')))
          [[''email'' \<mapsto> PStr ''a@x.org''], [''email'' \<mapsto> PStr ''b@y.org'']] = Returns results
        \<and> map company_domain results = [''x.org'', ''y.org'']
        \<and> map search_result results = [''answer A'', ''answer B''])"
proof -
  let ?tools = "\<lambda>(i::nat) (q::string). (Inr (''answer '' @ (if i = 0 then ''A'' else ''B'')) :: exn + string)"
  let ?as = "[[''email'' \<mapsto> PStr ''a@x.org''], [''email'' \<mapsto> PStr ''b@y.org'']] :: attendee list"
  have e: "process_attendees 5 (\<lambda>i q. Inr q) [] = Returns []"
    using process_attendees_preserves_order[of 5 "\<lambda>i q. Inr q" "[]"] by blast
  have t: "\<exists>results. process_attendees 5 ?tools ?as = Returns results"
    using process_attendees_preserves_order[of 5 ?tools ?as] by (simp add: dict_get_def)
  then obtain results where r: "process_attendees 5 ?tools ?as = Returns results" by blast
  with process_attendees_preserves_order[of 5 ?tools ?as]
  have n: "length results = 2"
    and i: "\<forall>i < 2. process_attendee (?tools i) (?as ! i) = Inr (results ! i)"
    by auto
  have "process_attendee (?tools 0) (?as ! 0) = Inr (results ! 0)"
    and "process_attendee (?tools 1) (?as ! 1) = Inr (results ! 1)"
    using i[rule_format, of 0] i[rule_format, of 1] by simp_all
  then have 0: "results ! 0 = \<lparr>person_name = ''Unknown'', organization = ''Unknown'', email = ''a@x.org'',
        company_domain = ''x.org'', search_result = ''answer A''\<rparr>"
    and 1: "results ! 1 = \<lparr>person_name = ''Unknown'', organization = ''Unknown'', email = ''b@y.org'',
        company_domain = ''y.org'', search_result = ''answer B''\<rparr>"
    by (simp_all add: process_attendee_def dict_get_def after_last_at_def Let_def person_name_of_def py_strip_def is_space_def py_or_def)
  from n obtain x y where xy: "results = [x, y]"
    by (metis (no_types, opaque_lifting) Suc_length_conv length_0_conv numeral_2_eq_2)
  show ?thesis using e r 0 1 unfolding xy by simp
qed

section \<open>Properties of the batch pipeline\<close>

lemma clean_json_text_empty_array: "clean_json_text ''[]'' = ''[]''"
  by (simp add: clean_json_text_def industry_alternation_def sub_category_alternation_def
      py_strip_def is_space_def)

lemma parse_results_cases:
  "parse_results json_loads raw =
     (case json_loads (clean_json_text raw) of
        Some v \<Rightarrow>
          (case py_len v of
             Inl e \<Rightarrow> ([ParserCall (clean_json_text raw)], Inl e)
           | Inr n \<Rightarrow> ([ParserCall (clean_json_text raw), ProcessedOk n], Inr v))
      | None \<Rightarrow>
          (case json_loads (aggressive_clean (clean_json_text raw)) of
             Some v \<Rightarrow>
               (case py_len v of
                  Inl e \<Rightarrow>
                    ([ParserCall (clean_json_text raw), ParseError,
                      ParserCall (aggressive_clean (clean_json_text raw)), CouldNotRecover],
                     Inr (JArr []))
                | Inr n \<Rightarrow>
                    ([ParserCall (clean_json_text raw), ParseError,
                      ParserCall (aggressive_clean (clean_json_text raw)), Recovered n], Inr v))
           | None \<Rightarrow>
               ([ParserCall (clean_json_text raw), ParseError,
                 ParserCall (aggressive_clean (clean_json_text raw)), CouldNotRecover],
                Inr (JArr []))))"
  by (simp add: parse_results_def Let_def split: option.splits)

lemma parse_results_ok_or_empty:
  "parse_results json_loads raw = (evs, Inr v) \<Longrightarrow> batch_ok evs \<or> v = JArr []"
  unfolding parse_results_cases
  by (auto simp: batch_ok_def split: option.splits sum.splits)

lemma parse_results_raise_not_ok:
  "parse_results json_loads raw = (evs, Inl e) \<Longrightarrow> \<not> batch_ok evs"
  unfolding parse_results_cases
  by (auto simp: batch_ok_def split: option.splits sum.splits)

lemma crew_result_not_ok: "crew_result w i = (evs, r) \<Longrightarrow> \<not> batch_ok evs"
  by (auto simp: crew_result_def batch_ok_def split: sum.splits if_splits)

lemma batch_ok_append: "batch_ok (xs @ ys) = (batch_ok xs \<or> batch_ok ys)"
  by (simp add: batch_ok_def)

lemma classify_and_repair_ok_or_empty:
  "classify_and_repair w i = (evs, v) \<Longrightarrow> batch_ok evs \<or> v = JArr []"
  by (auto simp: classify_and_repair_def batch_ok_append
      split: option.splits sum.splits prod.splits dest: parse_results_ok_or_empty)

lemma process_batch_ok_or_empty:
  "process_batch w cfg attendees i = Some (evs, v) \<Longrightarrow> batch_ok evs \<or> v = JArr []"
  by (auto simp: process_batch_def process_batch_async_def process_batch_with_crew_def
      split: sum.splits if_splits completion.splits dest: classify_and_repair_ok_or_empty)

lemma ok_records_eq_returned:
  "process_batch w cfg attendees i = r \<Longrightarrow> ok_records r = returned_records r"
  by (cases r) (auto simp: ok_records_def returned_records_def dest: process_batch_ok_or_empty)

text \<open>
  The two stages of the repairer. It first calls the parser on the cleaned text. When that
  succeeds, the parser is called once and the parsed value is the result, whatever JSON
  value it is, provided it has a length. When it fails, the
  repairer removes every character outside the class \<^verbatim>\<open>[ ] { } " , :\<close>, ASCII letters and
  digits, \<^verbatim>\<open>_\<close>, \<^verbatim>\<open>-\<close> and whitespace, and calls the parser exactly once more, on the
  filtered text. When that fails too, the result is the empty list and nothing is raised:
  the batch is reported as not recovered and contributes no record. The result is always a
  whole parse of one of the two stages or the empty list, never a mix of the two.
\<close>

theorem repair_two_stage:
  "(\<forall>v. json_loads (clean_json_text raw) = Some v \<longrightarrow>
       filter is_parser_call (fst (parse_results json_loads raw)) = [ParserCall (clean_json_text raw)]
     \<and> (\<forall>n. py_len v = Inr n \<longrightarrow>
           parse_results json_loads raw
             = ([ParserCall (clean_json_text raw), ProcessedOk n], Inr v)))
   \<and> (json_loads (clean_json_text raw) = None \<longrightarrow>
       filter is_parser_call (fst (parse_results json_loads raw))
         = [ParserCall (clean_json_text raw),
            ParserCall (filter keep_char (clean_json_text raw))]
     \<and> (\<forall>v n. json_loads (filter keep_char (clean_json_text raw)) = Some v \<and> py_len v = Inr n \<longrightarrow>
           parse_results json_loads raw
             = ([ParserCall (clean_json_text raw), ParseError,
                 ParserCall (filter keep_char (clean_json_text raw)), Recovered n], Inr v))
     \<and> (json_loads (filter keep_char (clean_json_text raw)) = None \<longrightarrow>
           parse_results json_loads raw
             = ([ParserCall (clean_json_text raw), ParseError,
                 ParserCall (filter keep_char (clean_json_text raw)), CouldNotRecover],
                Inr (JArr []))))
   \<and> (\<forall>w i. loads w = json_loads \<and> build w i = None \<and> kickoff w i = Inr raw
          \<and> json_loads (clean_json_text raw) = None
          \<and> json_loads (filter keep_char (clean_json_text raw)) = None \<longrightarrow>
          snd (classify_and_repair w i) = JArr []
        \<and> \<not> batch_ok (fst (classify_and_repair w i))
        \<and> ok_records (Some (classify_and_repair w i)) = [])
   \<and> (\<forall>evs v. parse_results json_loads raw = (evs, Inr v) \<longrightarrow>
          Some v = json_loads (clean_json_text raw)
        \<or> Some v = json_loads (filter keep_char (clean_json_text raw))
        \<or> v = JArr [])"
  unfolding parse_results_cases
  by (auto simp: aggressive_clean_def classify_and_repair_def crew_result_def parse_results_cases
      batch_ok_def ok_records_def split: option.splits sum.splits)


theorem repair_two_stage_witness:
  \<open>ex_loads (clean_json_text ''["a"]?'') = None
   \<and> ex_loads (filter keep_char (clean_json_text ''["a"]?'')) = Some (JArr [JStr ''a''])
   \<and> py_len (JArr [JStr ''a'']) = Inr 1
   \<and> parse_results ex_loads ''["a"]?''
       = ([ParserCall ''["a"]?'', ParseError, ParserCall ''["a"]'', Recovered 1],
          Inr (JArr [JStr ''a'']))\<close>
proof -
  have c: \<open>clean_json_text ''["a"]?'' = ''["a"]?''\<close>
    by (simp add: clean_json_text_def industry_alternation_def sub_category_alternation_def
        py_strip_def is_space_def)
  have f: \<open>filter keep_char ''["a"]?'' = ''["a"]''\<close>
    by (simp add: keep_char_def ascii_alnum_def is_space_def)
  have 1: \<open>ex_loads (clean_json_text ''["a"]?'') = None\<close>
    unfolding c by (simp add: ex_loads_def)
  have 2: \<open>ex_loads (filter keep_char (clean_json_text ''["a"]?'')) = Some (JArr [JStr ''a''])\<close>
    unfolding c f by (simp add: ex_loads_def)
  have 3: \<open>py_len (JArr [JStr ''a'']) = Inr 1\<close> by simp
  from repair_two_stage[of ex_loads \<open>''["a"]?''\<close>] 1 2 3
  have \<open>parse_results ex_loads ''["a"]?''
       = ([ParserCall (clean_json_text ''["a"]?''), ParseError,
           ParserCall (filter keep_char (clean_json_text ''["a"]?'')), Recovered 1],
          Inr (JArr [JStr ''a'']))\<close>
    by blast
  then show ?thesis using 1 2 3 unfolding c f by simp
qed

text \<open>
  Claim C6 states that the first stage is a strict parse of a JSON array, and that a text
  which is not one goes to the second stage and then yields no record. The code does not
  check what \<^verbatim>\<open>json.loads\<close> returned, although the docstrings of both pipelines and of
  \<^verbatim>\<open>analyze\<close> promise a list of result dictionaries and \<^verbatim>\<open>export_to_csv\<close> relies on one.
  For a response that is a single JSON object the first stage reports success with the
  number of keys as the number of attendees analyzed, there is no second stage, the object
  is the result of the batch, and \<^verbatim>\<open>analyze\<close> appends its keys to the aggregate as if they
  were records.
\<close>

theorem object_response_taken_as_records:
  \<open>parse_results (loads ex_object_world)
       ''{"person_name": "Ann Lee", "industry_association": "Healthcare"}''
     = ([ParserCall ''{"person_name": "Ann Lee", "industry_association": "Healthcare"}'',
         ProcessedOk 2],
        Inr (JObj [(''person_name'', JStr ''Ann Lee''),
                   (''industry_association'', JStr ''Healthcare'')]))
   \<and> process_batch ex_object_world ex_config [[''email'' \<mapsto> PStr ''ann@acme.io'']] 0
     = Some ([ParserCall ''{"person_name": "Ann Lee", "industry_association": "Healthcare"}'',
              ProcessedOk 2],
             JObj [(''person_name'', JStr ''Ann Lee''),
                   (''industry_association'', JStr ''Healthcare'')])
   \<and> analyze ex_object_world ex_config [[''email'' \<mapsto> PStr ''ann@acme.io'']] [0]
     = Some [JStr ''person_name'', JStr ''industry_association'']\<close>
proof -
  have c: \<open>clean_json_text ''{"person_name": "Ann Lee", "industry_association": "Healthcare"}''
      = ''{"person_name": "Ann Lee", "industry_association": "Healthcare"}''\<close>
    by (simp add: clean_json_text_def industry_alternation_def sub_category_alternation_def
        py_strip_def is_space_def)
  have 1: \<open>parse_results (loads ex_object_world)
       ''{"person_name": "Ann Lee", "industry_association": "Healthcare"}''
     = ([ParserCall ''{"person_name": "Ann Lee", "industry_association": "Healthcare"}'',
         ProcessedOk 2],
        Inr (JObj [(''person_name'', JStr ''Ann Lee''),
                   (''industry_association'', JStr ''Healthcare'')]))\<close>
    by (simp add: parse_results_def c Let_def ex_object_world_def)
  have k: \<open>kickoff ex_object_world 0
      = Inr ''{"person_name": "Ann Lee", "industry_association": "Healthcare"}''\<close>
    and b: "build ex_object_world 0 = None"
    by (simp_all add: ex_object_world_def)
  have 2: \<open>classify_and_repair ex_object_world 0
     = ([ParserCall ''{"person_name": "Ann Lee", "industry_association": "Healthcare"}'',
              ProcessedOk 2],
             JObj [(''person_name'', JStr ''Ann Lee''),
                   (''industry_association'', JStr ''Healthcare'')])\<close>
    by (simp add: classify_and_repair_def crew_result_def k b 1)
  have f: "process_attendees 5 (search ex_object_world 0) [[''email'' \<mapsto> PStr ''ann@acme.io'']]
      \<noteq> Blocks"
    "\<forall>e. process_attendees 5 (search ex_object_world 0) [[''email'' \<mapsto> PStr ''ann@acme.io'']]
      \<noteq> Raises e"
    by (simp_all add: process_attendees_def process_attendee_def process_attendee_except_def
      dict_get_def Let_def upt_rec ex_object_world_def split: sum.splits)
  have 3: \<open>process_batch ex_object_world ex_config [[''email'' \<mapsto> PStr ''ann@acme.io'']] 0
     = Some ([ParserCall ''{"person_name": "Ann Lee", "industry_association": "Healthcare"}'',
              ProcessedOk 2],
             JObj [(''person_name'', JStr ''Ann Lee''),
                   (''industry_association'', JStr ''Healthcare'')])\<close>
    using f
    by (simp add: process_batch_def process_batch_async_def ex_config_def 2
        preprocess_attendees_def py_slice_def py_bound_def split: completion.splits)
  have n: "submitted_batches ex_config [[''email'' \<mapsto> PStr ''ann@acme.io'']] = 1"
    by (simp add: submitted_batches_def ex_config_def total_batches_def)
  have 4: \<open>analyze ex_object_world ex_config [[''email'' \<mapsto> PStr ''ann@acme.io'']] [0]
     = Some [JStr ''person_name'', JStr ''industry_association'']\<close>
    by (simp add: analyze_def n 3 extend_def)
  from 1 3 4 show ?thesis by (intro conjI)
qed

lemma crew_result_other_kickoff:
  "j \<noteq> i \<Longrightarrow> crew_result (w\<lparr>kickoff := (kickoff w)(i := r)\<rparr>) j = crew_result w j"
  by (simp add: crew_result_def)

lemma classify_other_kickoff:
  "j \<noteq> i \<Longrightarrow>
   classify_and_repair (w\<lparr>kickoff := (kickoff w)(i := r)\<rparr>) j = classify_and_repair w j"
  by (simp add: classify_and_repair_def crew_result_other_kickoff
      cong: option.case_cong prod.case_cong sum.case_cong)

lemma process_batch_other_kickoff:
  "j \<noteq> i \<Longrightarrow>
   process_batch (w\<lparr>kickoff := (kickoff w)(i := r)\<rparr>) cfg attendees j
     = process_batch w cfg attendees j"
  by (simp add: process_batch_def process_batch_async_def process_batch_with_crew_def
      classify_other_kickoff cong: sum.case_cong completion.case_cong if_cong)

lemma classify_telemetry:
  assumes "build w i = None" "kickoff w i = Inl e" "is_telemetry_error e"
    "loads w ''[]'' = Some (JArr [])"
  shows "classify_and_repair w i = ([TelemetryCaught, ParserCall ''[]'', ProcessedOk 0], JArr [])"
  using assms
  by (simp add: classify_and_repair_def crew_result_def parse_results_cases
      clean_json_text_empty_array)

lemma classify_other_error:
  assumes "build w i = None" "kickoff w i = Inl e" "\<not> is_telemetry_error e"
  shows "classify_and_repair w i = ([PipelineError (str_of_exn e)], JArr [])"
  using assms by (simp add: classify_and_repair_def crew_result_def)

text \<open>
  Claim C5. When the classification call of a batch raises an exception of the telemetry
  class, the batch yields the empty list and is reported as processed successfully. Any
  other exception of the classification call, of the fanout or of the construction of the
  crew is caught at the batch boundary, reported, and the batch yields the empty list. A
  batch never yields records without reporting success, and what the classification of one
  batch raises does not change the result of another batch.
\<close>

theorem classification_failure_contained:
  "(\<forall>rs e. process_attendees (max_concurrent_searches cfg) (search w i) batch = Returns rs
        \<and> build w i = None \<and> kickoff w i = Inl e \<longrightarrow>
      (is_telemetry_error e \<and> loads w ''[]'' = Some (JArr []) \<longrightarrow>
         process_batch_async w cfg batch i
           = Some ([TelemetryCaught, ParserCall ''[]'', ProcessedOk 0], JArr [])
       \<and> batch_ok [TelemetryCaught, ParserCall ''[]'', ProcessedOk 0])
    \<and> (\<not> is_telemetry_error e \<longrightarrow>
         process_batch_async w cfg batch i = Some ([PipelineError (str_of_exn e)], JArr [])
       \<and> \<not> batch_ok [PipelineError (str_of_exn e)]))
   \<and> (\<forall>e. build w i = None \<and> kickoff w i = Inl e \<longrightarrow>
      (is_telemetry_error e \<and> loads w ''[]'' = Some (JArr []) \<longrightarrow>
         process_batch_with_crew w cfg batch i
           = Some ([TelemetryCaught, ParserCall ''[]'', ProcessedOk 0], JArr []))
    \<and> (\<not> is_telemetry_error e \<longrightarrow>
         process_batch_with_crew w cfg batch i
           = Some ([PipelineError (str_of_exn e)], JArr [])))
   \<and> (\<forall>e. process_attendees (max_concurrent_searches cfg) (search w i) batch = Raises e \<longrightarrow>
         process_batch_async w cfg batch i = Some ([PipelineError (str_of_exn e)], JArr []))
   \<and> (\<forall>rs e. process_attendees (max_concurrent_searches cfg) (search w i) batch = Returns rs
         \<and> build w i = Some e \<longrightarrow>
         process_batch_async w cfg batch i = Some ([PipelineError (str_of_exn e)], JArr []))
   \<and> (\<forall>evs v. process_batch w cfg attendees i = Some (evs, v) \<longrightarrow> batch_ok evs \<or> v = JArr [])
   \<and> (\<forall>r j. j \<noteq> i \<longrightarrow>
         process_batch (w\<lparr>kickoff := (kickoff w)(i := r)\<rparr>) cfg attendees j
           = process_batch w cfg attendees j)"
proof (intro conjI allI impI)
  fix rs e
  assume a: "process_attendees (max_concurrent_searches cfg) (search w i) batch = Returns rs
        \<and> build w i = None \<and> kickoff w i = Inl e"
  {
    assume t: "is_telemetry_error e \<and> loads w ''[]'' = Some (JArr [])"
    show "process_batch_async w cfg batch i
           = Some ([TelemetryCaught, ParserCall ''[]'', ProcessedOk 0], JArr [])"
      using a t by (simp add: process_batch_async_def classify_telemetry)
    show "batch_ok [TelemetryCaught, ParserCall ''[]'', ProcessedOk 0]"
      by (simp add: batch_ok_def)
  }
  {
    assume t: "\<not> is_telemetry_error e"
    show "process_batch_async w cfg batch i = Some ([PipelineError (str_of_exn e)], JArr [])"
      using a t by (simp add: process_batch_async_def classify_other_error)
    show "\<not> batch_ok [PipelineError (str_of_exn e)]"
      by (simp add: batch_ok_def)
  }
next
  fix e
  assume a: "build w i = None \<and> kickoff w i = Inl e"
  {
    assume t: "is_telemetry_error e \<and> loads w ''[]'' = Some (JArr [])"
    show "process_batch_with_crew w cfg batch i
           = Some ([TelemetryCaught, ParserCall ''[]'', ProcessedOk 0], JArr [])"
      using a t by (simp add: process_batch_with_crew_def classify_telemetry)
  }
  {
    assume t: "\<not> is_telemetry_error e"
    show "process_batch_with_crew w cfg batch i = Some ([PipelineError (str_of_exn e)], JArr [])"
      using a t by (simp add: process_batch_with_crew_def classify_other_error)
  }
next
  fix e
  assume "process_attendees (max_concurrent_searches cfg) (search w i) batch = Raises e"
  then show "process_batch_async w cfg batch i = Some ([PipelineError (str_of_exn e)], JArr [])"
    by (simp add: process_batch_async_def)
next
  fix rs e
  assume "process_attendees (max_concurrent_searches cfg) (search w i) batch = Returns rs
         \<and> build w i = Some e"
  then show "process_batch_async w cfg batch i = Some ([PipelineError (str_of_exn e)], JArr [])"
    by (simp add: process_batch_async_def classify_and_repair_def)
next
  fix evs v
  assume "process_batch w cfg attendees i = Some (evs, v)"
  then show "batch_ok evs \<or> v = JArr []" by (rule process_batch_ok_or_empty)
next
  fix r j
  assume "j \<noteq> i"
  then show "process_batch (w\<lparr>kickoff := (kickoff w)(i := r)\<rparr>) cfg attendees j
           = process_batch w cfg attendees j"
    by (rule process_batch_other_kickoff)
qed


lemma fanout_never_blocks:
  "0 < C \<Longrightarrow> process_attendees C tools batch \<noteq> Blocks"
  by (simp add: process_attendees_def split: sum.splits)

theorem classification_failure_contained_witness:
  "(\<exists>rs. process_attendees (max_concurrent_searches ex_config) (search ex_world 1)
            [ex_attendees ! 1] = Returns rs)
   \<and> build ex_world 1 = None \<and> kickoff ex_world 1 = Inl (Exception ''boom'')
   \<and> \<not> is_telemetry_error (Exception ''boom'')
   \<and> process_batch_async ex_world ex_config [ex_attendees ! 1] 1
       = Some ([PipelineError ''boom''], JArr [])
   \<and> (\<exists>rs. process_attendees (max_concurrent_searches ex_config) (search ex_world 2)
            [ex_attendees ! 1] = Returns rs)
   \<and> build ex_world 2 = None
   \<and> kickoff ex_world 2 = Inl (Exception ''AgentOps: NoApiKeyException'')
   \<and> is_telemetry_error (Exception ''AgentOps: NoApiKeyException'')
   \<and> loads ex_world ''[]'' = Some (JArr [])
   \<and> process_batch_async ex_world ex_config [ex_attendees ! 1] 2
       = Some ([TelemetryCaught, ParserCall ''[]'', ProcessedOk 0], JArr [])"
proof -
  have c: "(0::int) < max_concurrent_searches ex_config" by (simp add: ex_config_def)
  have m: "\<forall>a \<in> set [ex_attendees ! 1]. \<exists>s. dict_get a ''email'' = PStr s"
    by (simp add: ex_attendees_def dict_get_def)
  from process_attendees_total[OF c m] obtain rs1 where
    f1: "process_attendees (max_concurrent_searches ex_config) (search ex_world 1)
            [ex_attendees ! 1] = Returns rs1" by blast
  from process_attendees_total[OF c m] obtain rs2 where
    f2: "process_attendees (max_concurrent_searches ex_config) (search ex_world 2)
            [ex_attendees ! 1] = Returns rs2" by blast
  have b1: "build ex_world 1 = None" and b2: "build ex_world 2 = None"
    by (simp_all add: ex_world_def)
  have k1: "kickoff ex_world 1 = Inl (Exception ''boom'')"
    and k2: "kickoff ex_world 2 = Inl (Exception ''AgentOps: NoApiKeyException'')"
    by (simp_all add: ex_world_def)
  have t1: "\<not> is_telemetry_error (Exception ''boom'')"
    and t2: "is_telemetry_error (Exception ''AgentOps: NoApiKeyException'')"
    by (simp_all add: is_telemetry_error_def)
  have l: "loads ex_world ''[]'' = Some (JArr [])"
    by (simp add: ex_world_def ex_loads_def)
  have r1: "process_batch_async ex_world ex_config [ex_attendees ! 1] 1
       = Some ([PipelineError ''boom''], JArr [])"
    using classification_failure_contained[of ex_config ex_world 1 "[ex_attendees ! 1]"]
      f1 b1 k1 t1 by simp
  have r2: "process_batch_async ex_world ex_config [ex_attendees ! 1] 2
       = Some ([TelemetryCaught, ParserCall ''[]'', ProcessedOk 0], JArr [])"
    using classification_failure_contained[of ex_config ex_world 2 "[ex_attendees ! 1]"]
      f2 b2 k2 t2 l by simp
  show ?thesis using f1 f2 b1 b2 k1 k2 t1 t2 l r1 r2 by blast
qed

section \<open>Properties of the aggregation\<close>

lemma those_map_Some:
  "those (map f xs) = Some ys \<Longrightarrow>
   length ys = length xs \<and> (\<forall>i < length xs. f (xs ! i) = Some (ys ! i))"
proof (induction xs arbitrary: ys)
  case Nil
  then show ?case by simp
next
  case (Cons x xs)
  then show ?case
    by (auto split: option.splits simp: nth_Cons split: nat.splits)
qed

lemma those_map_total:
  "(\<forall>x \<in> set xs. f x \<noteq> None) \<Longrightarrow> \<exists>ys. those (map f xs) = Some ys"
  by (induction xs) (auto split: option.splits)

lemma foldl_extend: "foldl extend acc vs = acc @ concat (map items_of vs)"
  by (induction vs arbitrary: acc) (auto simp: extend_def items_of_def split: sum.splits)

lemma sum_list_perm:
  fixes g :: "nat \<Rightarrow> 'a multiset"
  assumes "mset xs = mset ys"
  shows "sum_list (map g xs) = sum_list (map g ys)"
proof -
  have "sum_list (map g xs) = sum_mset (image_mset g (mset xs))"
    by (metis mset_map sum_mset_sum_list)
  also have "\<dots> = sum_mset (image_mset g (mset ys))" using assms by simp
  also have "\<dots> = sum_list (map g ys)" by (metis mset_map sum_mset_sum_list)
  finally show ?thesis .
qed

lemma size_sum_list_mset:
  "size (\<Sum>i\<leftarrow>xs. mset (f i)) = (\<Sum>i\<leftarrow>xs. length (f i))"
  by (induction xs) auto

lemma analyze_Some:
  assumes perm: "mset order = mset [0..<submitted_batches cfg attendees]"
    and run: "analyze w cfg attendees order = Some final"
  shows "mset final = (\<Sum>i\<leftarrow>[0..<submitted_batches cfg attendees].
                         mset (returned_records (process_batch w cfg attendees i)))"
proof (cases "submitted_batches cfg attendees = 0")
  case True
  then show ?thesis using run by (simp add: analyze_def)
next
  case False
  define k where "k = submitted_batches cfg attendees"
  from run False obtain finished where
    th: "those (map (process_batch w cfg attendees) [0..<k]) = Some finished"
    and fin: "final = foldl extend [] (map (\<lambda>i. snd (finished ! i)) order)"
    by (auto simp: analyze_def k_def split: option.splits)
  from those_map_Some[OF th] have
    R: "\<forall>i < k. process_batch w cfg attendees i = Some (finished ! i)" by simp
  have rec: "items_of (snd (finished ! i)) = returned_records (process_batch w cfg attendees i)"
    if "i < k" for i
    using R that by (simp add: returned_records_def items_of_def split: prod.splits)
  have "mset final = sum_list (map (\<lambda>i. mset (items_of (snd (finished ! i)))) order)"
    unfolding fin foldl_extend by (simp add: mset_concat comp_def)
  also have "\<dots> = sum_list (map (\<lambda>i. mset (items_of (snd (finished ! i)))) [0..<k])"
    using perm unfolding k_def by (rule sum_list_perm)
  also have "\<dots> = sum_list (map (\<lambda>i. mset (returned_records (process_batch w cfg attendees i))) [0..<k])"
    by (rule arg_cong[where f = sum_list], rule map_cong) (simp_all add: rec)
  finally show ?thesis unfolding k_def .
qed

lemma analyze_total:
  assumes "\<forall>i < submitted_batches cfg attendees. process_batch w cfg attendees i \<noteq> None"
  shows "\<exists>final. analyze w cfg attendees order = Some final"
proof -
  have "\<forall>x \<in> set [0..<submitted_batches cfg attendees]. process_batch w cfg attendees x \<noteq> None"
    using assms by simp
  from those_map_total[OF this] show ?thesis
    by (auto simp: analyze_def)
qed


lemma neg_batch_size_total:
  assumes "(B::int) < 0" "1 \<le> N"
  shows "(N + B - 1) div B \<le> 1"
proof -
  have "(N + B - 1) div B \<le> B div B"
    using assms by (intro zdiv_mono1_neg) auto
  then show ?thesis using assms by simp
qed

lemma submitted_batches_pos:
  assumes "i < submitted_batches cfg attendees"
  shows "attendees \<noteq> []" "batch_size cfg \<noteq> 0"
    "submitted_batches cfg attendees
       = nat ((int (length attendees) + batch_size cfg - 1) div batch_size cfg)"
  using assms
  by (auto simp: submitted_batches_def total_batches_def split: if_splits)

lemma planned_batch_nonempty:
  assumes B: "0 < batch_size cfg" and i: "i < submitted_batches cfg attendees"
    and p: "preprocess_attendees attendees (batch_size cfg) (int i) = Inr batch"
  shows "batch \<noteq> []"
proof -
  define b where "b = nat (batch_size cfg)"
  have b: "0 < b" using B by (simp add: b_def)
  have k: "submitted_batches cfg attendees = (length attendees + b - 1) div b"
    using submitted_batches_pos(3)[OF i] nat_total_batches[OF B, of "length attendees"]
    by (simp add: b_def)
  have "i * b < length attendees"
    using i unfolding k by (rule nat_batches(3)[OF b])
  moreover have "batch = take b (drop (i * b) attendees)"
    using p preprocess_attendees_pos[OF B, of attendees i] by (simp add: b_def)
  ultimately show ?thesis using b by auto
qed

lemma fanout_returns_without_permit:
  assumes "C \<le> 0" "process_attendees C tools batch = Returns rs"
  shows "batch = []"
  using assms by (auto simp: process_attendees_def split: if_splits)

lemma process_batch_sync_returns:
  "\<not> use_async_processing cfg \<Longrightarrow> process_batch w cfg attendees i \<noteq> None"
  by (simp add: process_batch_def process_batch_with_crew_def split: sum.splits)

lemma process_batch_permit_returns:
  "0 < max_concurrent_searches cfg \<Longrightarrow> process_batch w cfg attendees i \<noteq> None"
  using fanout_never_blocks[of "max_concurrent_searches cfg"]
  by (auto simp: process_batch_def process_batch_with_crew_def process_batch_async_def
      split: sum.splits completion.splits)

lemma no_batch_blocks:
  assumes j: "j < submitted_batches cfg attendees"
    and reach: "use_async_processing cfg \<longrightarrow>
       (\<exists>batch rs. preprocess_attendees attendees (batch_size cfg) (int j) = Inr batch
          \<and> process_attendees (max_concurrent_searches cfg) (search w j) batch = Returns rs)"
  shows "\<forall>i < submitted_batches cfg attendees. process_batch w cfg attendees i \<noteq> None"
proof (cases "use_async_processing cfg")
  case False
  then show ?thesis by (simp add: process_batch_sync_returns)
next
  case True
  with reach obtain batch rs where
    p: "preprocess_attendees attendees (batch_size cfg) (int j) = Inr batch"
    and f: "process_attendees (max_concurrent_searches cfg) (search w j) batch = Returns rs"
    by blast
  show ?thesis
  proof (cases "0 < max_concurrent_searches cfg")
    case True
    then show ?thesis by (simp add: process_batch_permit_returns)
  next
    case False
    then have "batch = []" using fanout_returns_without_permit[OF _ f] by simp
    have k1: "submitted_batches cfg attendees \<le> 1"
    proof (cases "0 < batch_size cfg")
      case True
      from planned_batch_nonempty[OF True j p] \<open>batch = []\<close> show ?thesis by simp
    next
      case no: False
      with submitted_batches_pos(2)[OF j] have neg: "batch_size cfg < 0" by simp
      have "1 \<le> int (length attendees)"
        using submitted_batches_pos(1)[OF j] by (cases attendees) auto
      from neg_batch_size_total[OF neg this] show ?thesis
        unfolding submitted_batches_pos(3)[OF j] by simp
    qed
    have pj: "process_batch w cfg attendees j \<noteq> None"
      using p f True by (simp add: process_batch_def process_batch_async_def)
    show ?thesis
    proof (intro allI impI)
      fix i
      assume "i < submitted_batches cfg attendees"
      with k1 j have "i = j" by simp
      then show "process_batch w cfg attendees i \<noteq> None" using pj by simp
    qed
  qed
qed

lemma thrown_batch_returns_nothing:
  assumes j: "j < submitted_batches cfg attendees"
    and k: "kickoff w j = Inl e" and b: "build w j = None"
    and t: "is_telemetry_error e \<longrightarrow> loads w ''[]'' = Some (JArr [])"
  shows "returned_records (process_batch w cfg attendees j) = []"
proof -
  have c: "snd (classify_and_repair w j) = JArr []"
    using classify_telemetry[OF b k] classify_other_error[OF b k] t
    by (cases "is_telemetry_error e") simp_all
  show ?thesis
    using c
    by (auto simp: returned_records_def process_batch_def process_batch_async_def
        process_batch_with_crew_def split: sum.splits completion.splits option.splits prod.splits)
qed

text \<open>
  Claim C1. Let \<open>order\<close> be the completion order of the submitted batches. Whenever
  \<^verbatim>\<open>analyze\<close> returns, its result holds exactly the records of the batches that completed
  successfully, each as often as its batch returned it, so its size is at most the sum of
  the sizes of the successful batches; a batch that did not succeed returned the empty list
  and contributes nothing. If the classification of one submitted batch raises, \<^verbatim>\<open>analyze\<close>
  returns, and its result holds exactly the records the other batches returned.
\<close>

theorem aggregate_only_ok_batches:
  assumes "mset order = mset [0..<submitted_batches cfg attendees]"
  shows "(\<forall>final. analyze w cfg attendees order = Some final \<longrightarrow>
        mset final = (\<Sum>i\<leftarrow>[0..<submitted_batches cfg attendees].
                         mset (ok_records (process_batch w cfg attendees i)))
      \<and> length final \<le> (\<Sum>i\<leftarrow>[0..<submitted_batches cfg attendees].
                         length (ok_records (process_batch w cfg attendees i)))
      \<and> (\<forall>i < submitted_batches cfg attendees. \<forall>evs v.
            process_batch w cfg attendees i = Some (evs, v) \<and> \<not> batch_ok evs \<longrightarrow>
            v = JArr [] \<and> ok_records (process_batch w cfg attendees i) = []))
   \<and> (\<forall>j e. j < submitted_batches cfg attendees
        \<and> kickoff w j = Inl e \<and> build w j = None
        \<and> (use_async_processing cfg \<longrightarrow>
             (\<exists>batch rs. preprocess_attendees attendees (batch_size cfg) (int j) = Inr batch
                \<and> process_attendees (max_concurrent_searches cfg) (search w j) batch = Returns rs))
        \<and> (is_telemetry_error e \<longrightarrow> loads w ''[]'' = Some (JArr [])) \<longrightarrow>
        (\<exists>final. analyze w cfg attendees order = Some final
           \<and> mset final = (\<Sum>i\<leftarrow>[0..<submitted_batches cfg attendees].
                 if i = j then {#} else mset (returned_records (process_batch w cfg attendees i)))))"
proof (intro conjI allI impI)
  fix final
  assume run: "analyze w cfg attendees order = Some final"
  have m: "mset final = (\<Sum>i\<leftarrow>[0..<submitted_batches cfg attendees].
                         mset (returned_records (process_batch w cfg attendees i)))"
    by (rule analyze_Some[OF assms run])
  show ok: "mset final = (\<Sum>i\<leftarrow>[0..<submitted_batches cfg attendees].
                         mset (ok_records (process_batch w cfg attendees i)))"
    unfolding m by (simp add: ok_records_eq_returned)
  have "size (mset final) = (\<Sum>i\<leftarrow>[0..<submitted_batches cfg attendees].
                         length (ok_records (process_batch w cfg attendees i)))"
    unfolding ok by (rule size_sum_list_mset)
  then show "length final \<le> (\<Sum>i\<leftarrow>[0..<submitted_batches cfg attendees].
                         length (ok_records (process_batch w cfg attendees i)))"
    by simp
next
  fix final i evs v
  assume "process_batch w cfg attendees i = Some (evs, v) \<and> \<not> batch_ok evs"
  then show "v = JArr []" using process_batch_ok_or_empty by blast
next
  fix final i evs v
  assume "process_batch w cfg attendees i = Some (evs, v) \<and> \<not> batch_ok evs"
  then show "ok_records (process_batch w cfg attendees i) = []"
    by (simp add: ok_records_def)
next
  fix j e
  assume a: "j < submitted_batches cfg attendees
        \<and> kickoff w j = Inl e \<and> build w j = None
        \<and> (use_async_processing cfg \<longrightarrow>
             (\<exists>batch rs. preprocess_attendees attendees (batch_size cfg) (int j) = Inr batch
                \<and> process_attendees (max_concurrent_searches cfg) (search w j) batch = Returns rs))
        \<and> (is_telemetry_error e \<longrightarrow> loads w ''[]'' = Some (JArr []))"
  then have nb: "\<forall>i < submitted_batches cfg attendees. process_batch w cfg attendees i \<noteq> None"
    using no_batch_blocks by blast
  from analyze_total[OF nb] obtain final where
    run: "analyze w cfg attendees order = Some final" by blast
  have z: "returned_records (process_batch w cfg attendees j) = []"
    using a thrown_batch_returns_nothing by blast
  have "mset final = (\<Sum>i\<leftarrow>[0..<submitted_batches cfg attendees].
                         mset (returned_records (process_batch w cfg attendees i)))"
    by (rule analyze_Some[OF assms run])
  also have "\<dots> = (\<Sum>i\<leftarrow>[0..<submitted_batches cfg attendees].
                 if i = j then {#} else mset (returned_records (process_batch w cfg attendees i)))"
    by (rule arg_cong[where f = sum_list], rule map_cong) (simp_all add: z)
  finally show "\<exists>final. analyze w cfg attendees order = Some final
           \<and> mset final = (\<Sum>i\<leftarrow>[0..<submitted_batches cfg attendees].
                 if i = j then {#} else mset (returned_records (process_batch w cfg attendees i)))"
    using run by blast
qed


lemma ex_submitted: "submitted_batches ex_config ex_attendees = 2"
  by (simp add: submitted_batches_def total_batches_def ex_config_def ex_attendees_def)

lemma ex_clean: \<open>clean_json_text ''```json ["a"] ```'' = ''["a"]''\<close>
  by (simp add: clean_json_text_def industry_alternation_def sub_category_alternation_def
      py_strip_def is_space_def)

lemma ex_fanout0:
  "\<exists>rs. process_attendees 5 (search ex_world 0) [ex_attendees ! 0] = Returns rs"
  by (rule process_attendees_total) (simp_all add: ex_attendees_def dict_get_def)

lemma ex_fanout1:
  "\<exists>rs. process_attendees 5 (search ex_world 1) [ex_attendees ! 1] = Returns rs"
  by (rule process_attendees_total) (simp_all add: ex_attendees_def dict_get_def)

lemma ex_pre0: "preprocess_attendees ex_attendees 1 0 = Inr [ex_attendees ! 0]"
  by (simp add: preprocess_attendees_def py_slice_def py_bound_def ex_attendees_def)

lemma ex_pre1: "preprocess_attendees ex_attendees 1 1 = Inr [ex_attendees ! 1]"
  by (simp add: preprocess_attendees_def py_slice_def py_bound_def ex_attendees_def)

lemma ex_classify0:
  \<open>classify_and_repair ex_world 0 = ([ParserCall ''["a"]'', ProcessedOk 1], JArr [JStr ''a''])\<close>
proof -
  have c: \<open>crew_result ex_world 0 = ([], Inr ''```json ["a"] ```'')\<close>
    by (simp add: crew_result_def ex_world_def)
  have p: \<open>parse_results ex_loads ''```json ["a"] ```''
      = ([ParserCall ''["a"]'', ProcessedOk 1], Inr (JArr [JStr ''a'']))\<close>
    by (simp add: parse_results_cases ex_clean ex_loads_def)
  have b: "build ex_world 0 = None" and l: "loads ex_world = ex_loads"
    by (simp_all add: ex_world_def)
  show ?thesis by (simp add: classify_and_repair_def b l c p)
qed

lemma ex_batch0:
  \<open>process_batch ex_world ex_config ex_attendees 0
     = Some ([ParserCall ''["a"]'', ProcessedOk 1], JArr [JStr ''a''])\<close>
proof -
  from ex_fanout0 obtain rs where
    f: "process_attendees 5 (search ex_world 0) [ex_attendees ! 0] = Returns rs" by blast
  have c: "batch_size ex_config = 1" "max_concurrent_searches ex_config = 5"
    "use_async_processing ex_config" by (simp_all add: ex_config_def)
  show ?thesis
    using ex_pre0 by (simp add: process_batch_def process_batch_async_def c f ex_classify0)
qed

theorem aggregate_only_ok_batches_witness:
  \<open>mset [1, 0] = mset [0..<submitted_batches ex_config ex_attendees]
   \<and> (1::nat) < submitted_batches ex_config ex_attendees
   \<and> kickoff ex_world 1 = Inl (Exception ''boom'') \<and> build ex_world 1 = None
   \<and> \<not> is_telemetry_error (Exception ''boom'')
   \<and> (\<exists>batch rs. preprocess_attendees ex_attendees (batch_size ex_config) (int 1) = Inr batch
          \<and> process_attendees (max_concurrent_searches ex_config) (search ex_world 1) batch
              = Returns rs)
   \<and> analyze ex_world ex_config ex_attendees [1, 0] = Some [JStr ''a'']\<close>
proof -
  have p: "mset [1, 0] = mset [0..<submitted_batches ex_config ex_attendees]"
    unfolding ex_submitted by (simp add: upt_rec)
  have j: "(1::nat) < submitted_batches ex_config ex_attendees"
    unfolding ex_submitted by simp
  have k: "kickoff ex_world 1 = Inl (Exception ''boom'')" and b: "build ex_world 1 = None"
    by (simp_all add: ex_world_def)
  have t: "\<not> is_telemetry_error (Exception ''boom'')"
    by (simp add: is_telemetry_error_def)
  have r: "\<exists>batch rs. preprocess_attendees ex_attendees (batch_size ex_config) (int 1) = Inr batch
          \<and> process_attendees (max_concurrent_searches ex_config) (search ex_world 1) batch
              = Returns rs"
    using ex_pre1 ex_fanout1 by (simp add: ex_config_def)
  from aggregate_only_ok_batches[OF p, of ex_world] j k b t r
  obtain final where
    run: "analyze ex_world ex_config ex_attendees [1, 0] = Some final"
    and m: "mset final = (\<Sum>i\<leftarrow>[0..<submitted_batches ex_config ex_attendees].
                 if i = 1 then {#}
                 else mset (returned_records (process_batch ex_world ex_config ex_attendees i)))"
    by blast
  have "mset final = {#JStr ''a''#}"
    unfolding m ex_submitted by (simp add: upt_rec ex_batch0 returned_records_def)
  then have "final = [JStr ''a'']" by (metis mset_single_iff_right mset.simps(1,2) mset_eq_setD)
  with run p j k b t r show ?thesis by blast
qed

section \<open>Properties of the cleaning step\<close>

lemma give_back_all_fail:
  "(\<forall>k \<le> n. least \<le> k \<longrightarrow> rest (drop k s) = None) \<Longrightarrow> give_back rest least n s = None"
proof (induction n)
  case 0
  then show ?case by simp
next
  case (Suc n)
  then show ?case by (auto split: option.splits)
qed

lemma give_back_longest:
  assumes "least \<le> n" and "\<forall>k < n. least \<le> k \<longrightarrow> rest (drop k s) = None"
  shows "give_back rest least n s = rest (drop n s)"
proof (cases n)
  case 0
  then show ?thesis using assms by simp
next
  case (Suc m)
  have "give_back rest least m s = None"
    by (rule give_back_all_fail) (use assms Suc in auto)
  then show ?thesis using assms Suc by (auto split: option.splits)
qed

lemma blank_not_Nil: "blank w \<Longrightarrow> w \<noteq> []"
  by (simp add: blank_def)

lemma blank_space: "blank w \<Longrightarrow> c \<in> set w \<Longrightarrow> is_space c"
  by (simp add: blank_def list_all_iff)

lemma takeWhile_blank:
  assumes "blank w" "\<not> is_space a"
  shows "takeWhile is_space (w @ a # s) = w"
  using assms by (simp add: blank_def list_all_iff takeWhile_append2)

lemma no_lit_after_space:
  assumes "blank w" "\<not> is_space a" "k < length w"
  shows "\<not> prefix (a # l) (drop k (w @ s))"
proof -
  have "drop k (w @ s) = (w ! k) # drop (Suc k) w @ s"
    using assms(3) by (simp add: Cons_nth_drop_Suc)
  moreover have "is_space (w ! k)" using assms(1,3) blank_space nth_mem by blast
  ultimately show ?thesis using assms(2) by auto
qed

lemma match_spaces1_lit:
  assumes "blank w" "\<not> is_space a"
  shows "match_pat (Spaces1 # Lit (a # l) # ts) (w @ a # l @ s) = match_pat ts s"
proof -
  have n: "1 \<le> length w" using assms(1) by (cases w) (auto simp: blank_def)
  have t: "takeWhile is_space (w @ a # l @ s) = w"
    by (rule takeWhile_blank[OF assms])
  have fail: "\<forall>k < length w. 1 \<le> k \<longrightarrow>
      match_pat (Lit (a # l) # ts) (drop k (w @ a # l @ s)) = None"
    using no_lit_after_space[OF assms] by simp
  have "give_back (match_pat (Lit (a # l) # ts)) 1 (length w) (w @ a # l @ s)
      = match_pat (Lit (a # l) # ts) (drop (length w) (w @ a # l @ s))"
    by (rule give_back_longest[OF n fail])
  then show ?thesis by (simp add: t)
qed

lemma re_sub_skip_char:
  "c \<noteq> a \<Longrightarrow> re_sub (Lit (a # l) # ts) repl (c # cs) = c # re_sub (Lit (a # l) # ts) repl cs"
  by simp

lemma re_sub_skip_block:
  "a \<notin> set blk \<Longrightarrow>
   re_sub (Lit (a # l) # ts) repl (blk @ s) = blk @ re_sub (Lit (a # l) # ts) repl s"
  by (induction blk) auto

lemma re_sub_no_first_char:
  "a \<notin> set s \<Longrightarrow> re_sub (Lit (a # l) # ts) repl s = s"
  using re_sub_skip_block[of a s l ts repl "[]"] by simp

lemma re_sub_skip_first_char:
  "\<not> prefix l s \<Longrightarrow>
   re_sub (Lit (a # l) # ts) repl (a # s) = a # re_sub (Lit (a # l) # ts) repl s"
  by simp

lemma prefix_needs_chars: "prefix l s \<Longrightarrow> set l \<subseteq> set s"
  by (auto simp: prefix_def)

lemma spaces0_lit_no_match:
  assumes "a \<notin> set s"
  shows "match_pat [Spaces0, Lit (a # l)] s = None"
proof -
  have "\<forall>k \<le> length (takeWhile is_space s). 0 \<le> k \<longrightarrow>
      match_pat [Lit (a # l)] (drop k s) = None"
  proof (intro allI impI)
    fix k
    have "a \<notin> set (drop k s)" using assms by (meson in_set_dropD)
    then have "\<not> prefix (a # l) (drop k s)"
      using prefix_needs_chars by fastforce
    then show "match_pat [Lit (a # l)] (drop k s) = None" by simp
  qed
  from give_back_all_fail[OF this] show ?thesis by simp
qed

lemma re_sub_spaces0_lit_id:
  "a \<notin> set s \<Longrightarrow> re_sub [Spaces0, Lit (a # l)] repl s = s"
proof (induction s)
  case Nil
  then show ?case using spaces0_lit_no_match[of a "[]" l] by simp
next
  case (Cons c cs)
  then show ?case using spaces0_lit_no_match[of a "c # cs" l] by simp
qed

lemma py_strip_id:
  assumes "s \<noteq> []" "\<not> is_space (hd s)" "\<not> is_space (last s)"
  shows "py_strip s = s"
proof -
  have 1: "dropWhile is_space s = s" using assms(1,2) by (cases s) auto
  have "rev s \<noteq> []" "\<not> is_space (hd (rev s))"
    using assms(1,3) by (simp_all add: hd_rev)
  then have 2: "dropWhile is_space (rev s) = rev s" by (cases "rev s") auto
  show ?thesis by (simp add: py_strip_def 1 2)
qed


lemma match_lit:
  "match_pat (Lit l # ts) s = (if prefix l s then match_pat ts (drop (length l) s) else None)"
  by simp

lemma match_nil: "match_pat [] s = Some s"
  by simp

lemma match_spaces1_then_lit:
  assumes "blank w" "\<not> is_space a" "prefix l ls"
  shows "match_pat (Spaces1 # Lit (a # l) # ts) (w @ a # ls) = match_pat ts (drop (length l) ls)"
proof -
  from assms(3) have "ls = l @ drop (length l) ls"
    by (metis append_eq_conv_conj prefix_def)
  then have "w @ a # ls = w @ a # l @ drop (length l) ls" by simp
  then show ?thesis
    using match_spaces1_lit[OF assms(1,2), of l ts "drop (length l) ls"] by simp
qed

lemma blank_not_in: "blank w \<Longrightarrow> \<not> is_space a \<Longrightarrow> a \<notin> set w"
  using blank_space by blast

lemma quote_not_space: "\<not> is_space (CHR 0x22)" and o_not_space: "\<not> is_space CHR ''o''"
  by (simp_all add: is_space_def)

lemma match_industry:
  assumes "blank w1" "blank w2" "blank w3" "blank w4"
  shows \<open>match_pat industry_alternation
     (''"Pharmaceutical"'' @ w1 @ ''or'' @ w2 @ ''"Healthcare"'' @ w3 @ ''or'' @ w4
        @ ''"Other"'' @ s) = Some s\<close>
  unfolding industry_alternation_def
  by (simp add: match_lit match_nil match_spaces1_then_lit assms quote_not_space o_not_space
      del: match_pat.simps)

lemma match_sub_category:
  assumes "blank w1" "blank w2" "blank w3" "blank w4" "blank w5" "blank w6" "blank w7" "blank w8"
  shows \<open>match_pat sub_category_alternation
     (''"Pharma"'' @ w1 @ ''or'' @ w2 @ ''"Oncology"'' @ w3 @ ''or'' @ w4
        @ ''"Women's Health"'' @ w5 @ ''or'' @ w6 @ ''"Organ Studies"'' @ w7 @ ''or'' @ w8
        @ ''"Not a Lead"'' @ s) = Some s\<close>
  unfolding sub_category_alternation_def
  by (simp add: match_lit match_nil match_spaces1_then_lit assms quote_not_space o_not_space
      del: match_pat.simps)


lemma no_lit_in_blank:
  assumes "blank w" "\<not> is_space a"
  shows "prefix (a # l) (w @ s) = False"
  using no_lit_after_space[OF assms, of 0 l s] assms(1) by (simp add: blank_def)

lemma re_sub_at_match:
  "match_pat pat (c # cs) = Some r \<Longrightarrow> length r < Suc (length cs) \<Longrightarrow>
   re_sub pat repl (c # cs) = repl @ re_sub pat repl r"
  by simp

lemma industry_tail:
  \<open>CHR 0x22 \<notin> set s \<Longrightarrow> re_sub industry_alternation repl s = s\<close>
  unfolding industry_alternation_def by (rule re_sub_no_first_char)

lemma sub_category_tail:
  \<open>CHR 0x22 \<notin> set s \<Longrightarrow> re_sub sub_category_alternation repl s = s\<close>
  unfolding sub_category_alternation_def by (rule re_sub_no_first_char)

lemma industry_skip:
  \<open>CHR 0x22 \<notin> set pre \<Longrightarrow>
   re_sub industry_alternation repl (pre @ s) = pre @ re_sub industry_alternation repl s\<close>
  unfolding industry_alternation_def by (rule re_sub_skip_block)

lemma sub_category_skip:
  \<open>CHR 0x22 \<notin> set pre \<Longrightarrow>
   re_sub sub_category_alternation repl (pre @ s) = pre @ re_sub sub_category_alternation repl s\<close>
  unfolding sub_category_alternation_def by (rule re_sub_skip_block)

lemma industry_collapses:
  assumes "blank w1" "blank w2" "blank w3" "blank w4"
    and \<open>CHR 0x22 \<notin> set pre\<close> \<open>CHR 0x22 \<notin> set post\<close>
  shows \<open>re_sub industry_alternation repl
     (pre @ ''"Pharmaceutical"'' @ w1 @ ''or'' @ w2 @ ''"Healthcare"'' @ w3 @ ''or'' @ w4
        @ ''"Other"'' @ post) = pre @ repl @ post\<close>
proof -
  have \<open>re_sub industry_alternation repl
     (''"Pharmaceutical"'' @ w1 @ ''or'' @ w2 @ ''"Healthcare"'' @ w3 @ ''or'' @ w4
        @ ''"Other"'' @ post) = repl @ re_sub industry_alternation repl post\<close>
    using match_industry[OF assms(1-4), of post]
    by (simp add: re_sub_at_match del: re_sub.simps)
  then show ?thesis
    by (simp only: industry_skip[OF assms(5)] industry_tail[OF assms(6)])
qed

lemma sub_category_collapses:
  assumes "blank w1" "blank w2" "blank w3" "blank w4" "blank w5" "blank w6" "blank w7" "blank w8"
    and \<open>CHR 0x22 \<notin> set pre\<close> \<open>CHR 0x22 \<notin> set post\<close>
  shows \<open>re_sub sub_category_alternation repl
     (pre @ ''"Pharma"'' @ w1 @ ''or'' @ w2 @ ''"Oncology"'' @ w3 @ ''or'' @ w4
        @ ''"Women's Health"'' @ w5 @ ''or'' @ w6 @ ''"Organ Studies"'' @ w7 @ ''or'' @ w8
        @ ''"Not a Lead"'' @ post) = pre @ repl @ post\<close>
proof -
  have \<open>re_sub sub_category_alternation repl
     (''"Pharma"'' @ w1 @ ''or'' @ w2 @ ''"Oncology"'' @ w3 @ ''or'' @ w4
        @ ''"Women's Health"'' @ w5 @ ''or'' @ w6 @ ''"Organ Studies"'' @ w7 @ ''or'' @ w8
        @ ''"Not a Lead"'' @ post) = repl @ re_sub sub_category_alternation repl post\<close>
    using match_sub_category[OF assms(1-8), of post]
    by (simp add: re_sub_at_match del: re_sub.simps)
  then show ?thesis
    by (simp only: sub_category_skip[OF assms(9)] sub_category_tail[OF assms(10)])
qed

lemma sub_category_keeps_industry_value:
  assumes \<open>CHR 0x22 \<notin> set pre\<close> \<open>CHR 0x22 \<notin> set post\<close>
  shows \<open>re_sub sub_category_alternation repl (pre @ ''"Pharmaceutical"'' @ post)
     = pre @ ''"Pharmaceutical"'' @ post\<close>
proof -
  have np: \<open>\<not> prefix ''Pharma"'' post\<close>
    using prefix_needs_chars[of \<open>''Pharma"''\<close> post] assms(2) by auto
  have t: \<open>re_sub sub_category_alternation repl post = post\<close>
    by (rule sub_category_tail[OF assms(2)])
  have \<open>re_sub sub_category_alternation repl (''"Pharmaceutical"'' @ post)
     = ''"Pharmaceutical"'' @ post\<close>
    using np t[unfolded sub_category_alternation_def]
    unfolding sub_category_alternation_def
    by (simp add: match_lit del: match_pat.simps)
  then show ?thesis by (simp only: sub_category_skip[OF assms(1)])
qed

lemma industry_keeps_sub_category_phrase:
  assumes "blank w1" "blank w2" "blank w3" "blank w4" "blank w5" "blank w6" "blank w7" "blank w8"
    and \<open>CHR 0x22 \<notin> set pre\<close> \<open>CHR 0x22 \<notin> set post\<close>
  shows \<open>re_sub industry_alternation repl
     (pre @ ''"Pharma"'' @ w1 @ ''or'' @ w2 @ ''"Oncology"'' @ w3 @ ''or'' @ w4
        @ ''"Women's Health"'' @ w5 @ ''or'' @ w6 @ ''"Organ Studies"'' @ w7 @ ''or'' @ w8
        @ ''"Not a Lead"'' @ post)
     = pre @ ''"Pharma"'' @ w1 @ ''or'' @ w2 @ ''"Oncology"'' @ w3 @ ''or'' @ w4
        @ ''"Women's Health"'' @ w5 @ ''or'' @ w6 @ ''"Organ Studies"'' @ w7 @ ''or'' @ w8
        @ ''"Not a Lead"'' @ post\<close>
proof -
  have np: \<open>\<not> prefix ''Pharmaceutical"'' post\<close>
    using prefix_needs_chars[of \<open>''Pharmaceutical"''\<close> post] assms(10) by auto
  have t: \<open>re_sub industry_alternation repl post = post\<close>
    by (rule industry_tail[OF assms(10)])
  note q = assms(1-8)[THEN blank_not_in, OF quote_not_space]
  have P: \<open>\<not> is_space CHR ''P''\<close> by (simp add: is_space_def)
  note b = assms(1-8)[THEN no_lit_in_blank, OF P]
  have \<open>re_sub industry_alternation repl
     (''"Pharma"'' @ w1 @ ''or'' @ w2 @ ''"Oncology"'' @ w3 @ ''or'' @ w4
        @ ''"Women's Health"'' @ w5 @ ''or'' @ w6 @ ''"Organ Studies"'' @ w7 @ ''or'' @ w8
        @ ''"Not a Lead"'' @ post)
     = ''"Pharma"'' @ w1 @ ''or'' @ w2 @ ''"Oncology"'' @ w3 @ ''or'' @ w4
        @ ''"Women's Health"'' @ w5 @ ''or'' @ w6 @ ''"Organ Studies"'' @ w7 @ ''or'' @ w8
        @ ''"Not a Lead"'' @ post\<close>
    using np t[unfolded industry_alternation_def]
    unfolding industry_alternation_def
    by (simp add: match_lit re_sub_skip_block q b del: match_pat.simps)
  then show ?thesis by (simp only: industry_skip[OF assms(9)])
qed


lemma fences_id:
  assumes "CHR 0x60 \<notin> set s"
  shows "re_sub [Spaces0, Lit ''```''] [] (re_sub [Lit ''```'', Opt ''json'', Spaces0] [] s) = s"
  by (simp only: re_sub_no_first_char[OF assms] re_sub_spaces0_lit_id[OF assms])

lemma py_strip_context:
  assumes "pre = [] \<or> \<not> is_space (hd pre)" "post = [] \<or> \<not> is_space (last post)"
    "\<not> is_space a" "\<not> is_space z"
  shows "py_strip (pre @ a # mid @ z # post) = pre @ a # mid @ z # post"
proof (rule py_strip_id)
  show "pre @ a # mid @ z # post \<noteq> []" by simp
  show "\<not> is_space (hd (pre @ a # mid @ z # post))"
    using assms(1,3) by (cases pre) auto
  show "\<not> is_space (last (pre @ a # mid @ z # post))"
    using assms(2,4) by (cases post rule: rev_cases) auto
qed

lemma backtick_not_space: "\<not> is_space (CHR 0x60)"
  by (simp add: is_space_def)

lemma give_back_Some:
  "give_back rest least n s = Some r \<Longrightarrow> \<exists>k. least \<le> k \<and> k \<le> n \<and> rest (drop k s) = Some r"
proof (induction n)
  case 0
  then show ?case by (auto split: if_splits)
next
  case (Suc n)
  show ?case
  proof (cases "rest (drop (Suc n) s)")
    case None
    with Suc.prems have "give_back rest least n s = Some r" by (auto split: if_splits)
    from Suc.IH[OF this] show ?thesis by (meson le_Suc_eq)
  next
    case (Some r')
    with Suc.prems have "r' = r" "least \<le> Suc n" by (auto split: if_splits)
    with Some show ?thesis by blast
  qed
qed

lemma match_lit_shape:
  "match_pat (Lit l # ts) s = Some r \<Longrightarrow> \<exists>s'. s = l @ s' \<and> match_pat ts s' = Some r"
  by (auto simp: prefix_def split: if_splits)

lemma match_spaces1_shape:
  assumes "match_pat (Spaces1 # ts) s = Some r"
  shows "\<exists>w s'. blank w \<and> s = w @ s' \<and> match_pat ts s' = Some r"
proof -
  from assms have "give_back (match_pat ts) 1 (length (takeWhile is_space s)) s = Some r" by simp
  from give_back_Some[OF this] obtain k where
    k: "1 \<le> k" "k \<le> length (takeWhile is_space s)" "match_pat ts (drop k s) = Some r" by blast
  have p: "take k s = take k (takeWhile is_space s)"
    using k(2) by (metis takeWhile_dropWhile_id append_eq_conv_conj take_append min.absorb2 take_all_iff diff_is_0_eq' take_0 append_Nil2 le_refl)
  have "list_all is_space (take k s)"
    unfolding p list_all_iff by (meson in_set_takeD set_takeWhileD)
  moreover have "take k s \<noteq> []" using k(1,2) by (cases s) auto
  ultimately have "blank (take k s)" by (simp add: blank_def)
  moreover have "s = take k s @ drop k s" by simp
  ultimately show ?thesis using k(3) by blast
qed


lemma match_litE:
  assumes "match_pat (Lit l # ts) s = Some r"
  obtains s' where "s = l @ s'" "match_pat ts s' = Some r"
  using match_lit_shape[OF assms] by (elim exE conjE)

lemma match_spaces1E:
  assumes "match_pat (Spaces1 # ts) s = Some r"
  obtains w s' where "blank w" "s = w @ s'" "match_pat ts s' = Some r"
  using match_spaces1_shape[OF assms] by (elim exE conjE)

lemma match_nil_shape: "match_pat [] s = Some r \<Longrightarrow> s = r"
  by simp

lemma industry_match_shape:
  assumes "match_pat industry_alternation s = Some r"
  shows \<open>\<exists>w1 w2 w3 w4. blank w1 \<and> blank w2 \<and> blank w3 \<and> blank w4
     \<and> s = ''"Pharmaceutical"'' @ w1 @ ''or'' @ w2 @ ''"Healthcare"'' @ w3 @ ''or'' @ w4
              @ ''"Other"'' @ r\<close>
proof -
    from assms[unfolded industry_alternation_def]
  obtain s1 where 1: \<open>s = ''"Pharmaceutical"'' @ s1\<close>
    and m1: \<open>match_pat [Spaces1, Lit ''or'', Spaces1, Lit ''"Healthcare"'', Spaces1, Lit ''or'',
                Spaces1, Lit ''"Other"''] s1 = Some r\<close>
    by (rule match_litE)
  from m1 obtain w1 s2 where 2: "blank w1" "s1 = w1 @ s2"
    and m2: \<open>match_pat [Lit ''or'', Spaces1, Lit ''"Healthcare"'', Spaces1, Lit ''or'',
                Spaces1, Lit ''"Other"''] s2 = Some r\<close> by (rule match_spaces1E)
  from m2 obtain s3 where 3: "s2 = ''or'' @ s3"
    and m3: \<open>match_pat [Spaces1, Lit ''"Healthcare"'', Spaces1, Lit ''or'',
                Spaces1, Lit ''"Other"''] s3 = Some r\<close> by (rule match_litE)
  from m3 obtain w2 s4 where 4: "blank w2" "s3 = w2 @ s4"
    and m4: \<open>match_pat [Lit ''"Healthcare"'', Spaces1, Lit ''or'',
                Spaces1, Lit ''"Other"''] s4 = Some r\<close> by (rule match_spaces1E)
  from m4 obtain s5 where 5: \<open>s4 = ''"Healthcare"'' @ s5\<close>
    and m5: \<open>match_pat [Spaces1, Lit ''or'', Spaces1, Lit ''"Other"''] s5 = Some r\<close> by (rule match_litE)
  from m5 obtain w3 s6 where 6: "blank w3" "s5 = w3 @ s6"
    and m6: \<open>match_pat [Lit ''or'', Spaces1, Lit ''"Other"''] s6 = Some r\<close> by (rule match_spaces1E)
  from m6 obtain s7 where 7: "s6 = ''or'' @ s7"
    and m7: \<open>match_pat [Spaces1, Lit ''"Other"''] s7 = Some r\<close> by (rule match_litE)
  from m7 obtain w4 s8 where 8: "blank w4" "s7 = w4 @ s8"
    and m8: \<open>match_pat [Lit ''"Other"''] s8 = Some r\<close> by (rule match_spaces1E)
  from m8 obtain s9 where 9: \<open>s8 = ''"Other"'' @ s9\<close>
    and m9: "match_pat [] s9 = Some r" by (rule match_litE)
  have 10: "s9 = r" using m9 by simp
  have \<open>s = ''"Pharmaceutical"'' @ w1 @ ''or'' @ w2 @ ''"Healthcare"'' @ w3 @ ''or'' @ w4
              @ ''"Other"'' @ r\<close>
    by (simp only: 1 2(2) 3 4(2) 5 6(2) 7 8(2) 9 10)
  with 2(1) 4(1) 6(1) 8(1)
  have \<open>blank w1 \<and> blank w2 \<and> blank w3 \<and> blank w4
     \<and> s = ''"Pharmaceutical"'' @ w1 @ ''or'' @ w2 @ ''"Healthcare"'' @ w3 @ ''or'' @ w4
              @ ''"Other"'' @ r\<close>
    by (intro conjI)
  then show ?thesis by - (rule exI)+
qed

lemma sub_category_match_shape:
  assumes "match_pat sub_category_alternation s = Some r"
  shows \<open>\<exists>w1 w2 w3 w4 w5 w6 w7 w8. blank w1 \<and> blank w2 \<and> blank w3 \<and> blank w4
     \<and> blank w5 \<and> blank w6 \<and> blank w7 \<and> blank w8
     \<and> s = ''"Pharma"'' @ w1 @ ''or'' @ w2 @ ''"Oncology"'' @ w3 @ ''or'' @ w4
          @ ''"Women's Health"'' @ w5 @ ''or'' @ w6 @ ''"Organ Studies"'' @ w7 @ ''or'' @ w8
          @ ''"Not a Lead"'' @ r\<close>
proof -
    from assms[unfolded sub_category_alternation_def]
  obtain s1 where 1: \<open>s = ''"Pharma"'' @ s1\<close>
    and m1: \<open>match_pat [Spaces1, Lit ''or'', Spaces1, Lit ''"Oncology"'', Spaces1, Lit ''or'',
      Spaces1, Lit ''"Women's Health"'', Spaces1, Lit ''or'', Spaces1, Lit ''"Organ Studies"'',
      Spaces1, Lit ''or'', Spaces1, Lit ''"Not a Lead"''] s1 = Some r\<close>
    by (rule match_litE)
  from m1 obtain w1 t1 where 2: "blank w1" "s1 = w1 @ t1"
    and n1: \<open>match_pat [Lit ''or'', Spaces1, Lit ''"Oncology"'', Spaces1, Lit ''or'',
      Spaces1, Lit ''"Women's Health"'', Spaces1, Lit ''or'', Spaces1, Lit ''"Organ Studies"'',
      Spaces1, Lit ''or'', Spaces1, Lit ''"Not a Lead"''] t1 = Some r\<close> by (rule match_spaces1E)
  from n1 obtain t2 where 3: "t1 = ''or'' @ t2"
    and n2: \<open>match_pat [Spaces1, Lit ''"Oncology"'', Spaces1, Lit ''or'',
      Spaces1, Lit ''"Women's Health"'', Spaces1, Lit ''or'', Spaces1, Lit ''"Organ Studies"'',
      Spaces1, Lit ''or'', Spaces1, Lit ''"Not a Lead"''] t2 = Some r\<close> by (rule match_litE)
  from n2 obtain w2 t3 where 4: "blank w2" "t2 = w2 @ t3"
    and n3: \<open>match_pat [Lit ''"Oncology"'', Spaces1, Lit ''or'',
      Spaces1, Lit ''"Women's Health"'', Spaces1, Lit ''or'', Spaces1, Lit ''"Organ Studies"'',
      Spaces1, Lit ''or'', Spaces1, Lit ''"Not a Lead"''] t3 = Some r\<close> by (rule match_spaces1E)
  from n3 obtain s2 where 5: \<open>t3 = ''"Oncology"'' @ s2\<close>
    and m2: \<open>match_pat [Spaces1, Lit ''or'',
      Spaces1, Lit ''"Women's Health"'', Spaces1, Lit ''or'', Spaces1, Lit ''"Organ Studies"'',
      Spaces1, Lit ''or'', Spaces1, Lit ''"Not a Lead"''] s2 = Some r\<close> by (rule match_litE)
  from m2 obtain w3 t4 where 6: "blank w3" "s2 = w3 @ t4"
    and n4: \<open>match_pat [Lit ''or'',
      Spaces1, Lit ''"Women's Health"'', Spaces1, Lit ''or'', Spaces1, Lit ''"Organ Studies"'',
      Spaces1, Lit ''or'', Spaces1, Lit ''"Not a Lead"''] t4 = Some r\<close> by (rule match_spaces1E)
  from n4 obtain t5 where 7: "t4 = ''or'' @ t5"
    and n5: \<open>match_pat [Spaces1, Lit ''"Women's Health"'', Spaces1, Lit ''or'', Spaces1,
      Lit ''"Organ Studies"'', Spaces1, Lit ''or'', Spaces1, Lit ''"Not a Lead"''] t5 = Some r\<close> by (rule match_litE)
  from n5 obtain w4 t6 where 8: "blank w4" "t5 = w4 @ t6"
    and n6: \<open>match_pat [Lit ''"Women's Health"'', Spaces1, Lit ''or'', Spaces1,
      Lit ''"Organ Studies"'', Spaces1, Lit ''or'', Spaces1, Lit ''"Not a Lead"''] t6 = Some r\<close> by (rule match_spaces1E)
  from n6 obtain s3 where 9: \<open>t6 = ''"Women's Health"'' @ s3\<close>
    and m3: \<open>match_pat [Spaces1, Lit ''or'', Spaces1,
      Lit ''"Organ Studies"'', Spaces1, Lit ''or'', Spaces1, Lit ''"Not a Lead"''] s3 = Some r\<close> by (rule match_litE)
  from m3 obtain w5 t7 where 10: "blank w5" "s3 = w5 @ t7"
    and n7: \<open>match_pat [Lit ''or'', Spaces1,
      Lit ''"Organ Studies"'', Spaces1, Lit ''or'', Spaces1, Lit ''"Not a Lead"''] t7 = Some r\<close> by (rule match_spaces1E)
  from n7 obtain t8 where 11: "t7 = ''or'' @ t8"
    and n8: \<open>match_pat [Spaces1,
      Lit ''"Organ Studies"'', Spaces1, Lit ''or'', Spaces1, Lit ''"Not a Lead"''] t8 = Some r\<close> by (rule match_litE)
  from n8 obtain w6 t9 where 12: "blank w6" "t8 = w6 @ t9"
    and n9: \<open>match_pat [Lit ''"Organ Studies"'', Spaces1, Lit ''or'', Spaces1,
      Lit ''"Not a Lead"''] t9 = Some r\<close> by (rule match_spaces1E)
  from n9 obtain s4 where 13: \<open>t9 = ''"Organ Studies"'' @ s4\<close>
    and m4: \<open>match_pat [Spaces1, Lit ''or'', Spaces1, Lit ''"Not a Lead"''] s4 = Some r\<close> by (rule match_litE)
  from m4 obtain w7 t10 where 14: "blank w7" "s4 = w7 @ t10"
    and n10: \<open>match_pat [Lit ''or'', Spaces1, Lit ''"Not a Lead"''] t10 = Some r\<close> by (rule match_spaces1E)
  from n10 obtain t11 where 15: "t10 = ''or'' @ t11"
    and n11: \<open>match_pat [Spaces1, Lit ''"Not a Lead"''] t11 = Some r\<close> by (rule match_litE)
  from n11 obtain w8 t12 where 16: "blank w8" "t11 = w8 @ t12"
    and n12: \<open>match_pat [Lit ''"Not a Lead"''] t12 = Some r\<close> by (rule match_spaces1E)
  from n12 obtain s5 where 17: \<open>t12 = ''"Not a Lead"'' @ s5\<close>
    and m5: "match_pat [] s5 = Some r" by (rule match_litE)
  have 18: "s5 = r" using m5 by simp
  have \<open>s = ''"Pharma"'' @ w1 @ ''or'' @ w2 @ ''"Oncology"'' @ w3 @ ''or'' @ w4
          @ ''"Women's Health"'' @ w5 @ ''or'' @ w6 @ ''"Organ Studies"'' @ w7 @ ''or'' @ w8
          @ ''"Not a Lead"'' @ r\<close>
    by (simp only: 1 2(2) 3 4(2) 5 6(2) 7 8(2) 9 10(2) 11 12(2) 13 14(2) 15 16(2) 17 18)
  with 2(1) 4(1) 6(1) 8(1) 10(1) 12(1) 14(1) 16(1)
  have \<open>blank w1 \<and> blank w2 \<and> blank w3 \<and> blank w4
     \<and> blank w5 \<and> blank w6 \<and> blank w7 \<and> blank w8
     \<and> s = ''"Pharma"'' @ w1 @ ''or'' @ w2 @ ''"Oncology"'' @ w3 @ ''or'' @ w4
          @ ''"Women's Health"'' @ w5 @ ''or'' @ w6 @ ''"Organ Studies"'' @ w7 @ ''or'' @ w8
          @ ''"Not a Lead"'' @ r\<close>
    by (intro conjI)
  then show ?thesis by - (rule exI)+
qed

lemma re_sub_no_match:
  "match_pat pat (c # cs) = None \<Longrightarrow> re_sub pat repl (c # cs) = c # re_sub pat repl cs"
  by simp

lemma re_sub_industry_at:
  assumes "blank w1" "blank w2" "blank w3" "blank w4"
  shows \<open>re_sub industry_alternation repl
     (''"Pharmaceutical"'' @ w1 @ ''or'' @ w2 @ ''"Healthcare"'' @ w3 @ ''or'' @ w4
        @ ''"Other"'' @ post) = repl @ re_sub industry_alternation repl post\<close>
  using match_industry[OF assms, of post]
  by (simp add: re_sub_at_match del: re_sub.simps)

lemma re_sub_sub_category_at:
  assumes "blank w1" "blank w2" "blank w3" "blank w4" "blank w5" "blank w6" "blank w7" "blank w8"
  shows \<open>re_sub sub_category_alternation repl
     (''"Pharma"'' @ w1 @ ''or'' @ w2 @ ''"Oncology"'' @ w3 @ ''or'' @ w4
        @ ''"Women's Health"'' @ w5 @ ''or'' @ w6 @ ''"Organ Studies"'' @ w7 @ ''or'' @ w8
        @ ''"Not a Lead"'' @ post) = repl @ re_sub sub_category_alternation repl post\<close>
  using match_sub_category[OF assms, of post]
  by (simp add: re_sub_at_match del: re_sub.simps)

lemma industry_match_begins:
  "match_pat industry_alternation s = Some r \<Longrightarrow> begins_industry s"
  unfolding begins_industry_def industry_phrase_def append_assoc
  by (drule industry_match_shape) (elim exE, (rule exI)+)

lemma sub_category_match_begins:
  "match_pat sub_category_alternation s = Some r \<Longrightarrow> begins_sub_category s"
  unfolding begins_sub_category_def sub_category_phrase_def append_assoc
  by (drule sub_category_match_shape) (elim exE, (rule exI)+)

lemma industry_no_match: "\<not> begins_industry s \<Longrightarrow> match_pat industry_alternation s = None"
  using industry_match_begins by (cases "match_pat industry_alternation s") auto

lemma sub_category_no_match:
  "\<not> begins_sub_category s \<Longrightarrow> match_pat sub_category_alternation s = None"
  using sub_category_match_begins by (cases "match_pat sub_category_alternation s") auto

lemma re_sub_leftmost:
  "(\<forall>i < length pre. match_pat pat (drop i (pre @ s)) = None)
   \<Longrightarrow> re_sub pat repl (pre @ s) = pre @ re_sub pat repl s"
proof (induction pre)
  case Nil
  then show ?case by simp
next
  case (Cons c pre)
  have 0: "match_pat pat (c # pre @ s) = None" using Cons.prems by fastforce
  have "\<forall>i < length pre. match_pat pat (drop i (pre @ s)) = None"
  proof (intro allI impI)
    fix i assume "i < length pre"
    then have "Suc i < length (c # pre)" by simp
    with Cons.prems have "match_pat pat (drop (Suc i) ((c # pre) @ s)) = None" by blast
    then show "match_pat pat (drop i (pre @ s)) = None" by simp
  qed
  from Cons.IH[OF this] 0 show ?case by simp
qed

lemma re_sub_table_Nil:
  "re_sub industry_alternation repl [] = []" "re_sub sub_category_alternation repl [] = []"
  by (simp_all add: industry_alternation_def sub_category_alternation_def)

lemma re_sub_industry_phrase:
  assumes "blank w1" "blank w2" "blank w3" "blank w4"
  shows "re_sub industry_alternation repl (industry_phrase w1 w2 w3 w4 @ post)
         = repl @ re_sub industry_alternation repl post"
  unfolding industry_phrase_def append_assoc by (rule re_sub_industry_at[OF assms])

lemma re_sub_sub_category_phrase:
  assumes "blank w1" "blank w2" "blank w3" "blank w4" "blank w5" "blank w6" "blank w7" "blank w8"
  shows "re_sub sub_category_alternation repl (sub_category_phrase w1 w2 w3 w4 w5 w6 w7 w8 @ post)
         = repl @ re_sub sub_category_alternation repl post"
  unfolding sub_category_phrase_def append_assoc by (rule re_sub_sub_category_at[OF assms])

text \<open>
  Claim C7, as amended. The cleaning step collapses the two alternations of its table, and
  only those, wherever they occur. After the fence markers are removed and the text is
  stripped, the text is scanned from the left, once for each alternation. When the
  alternation of the three industry values occurs in a text and no occurrence begins before
  it, then what precedes it is kept, the occurrence is replaced in its place by its
  leftmost value \<^verbatim>\<open>"Pharmaceutical"\<close>, and the scan goes on in the same way behind it;
  a text in which no occurrence begins is left as it is. The same holds for the alternation
  of the five sub-categories and its leftmost value \<^verbatim>\<open>"Pharma"\<close>. The whitespace around
  each \<^verbatim>\<open>or\<close> is any non-empty run, and nothing is assumed about the rest of the text.
\<close>

theorem listed_alternations_collapsed:
  \<open>clean_json_text text
     = re_sub sub_category_alternation ''"Pharma"''
         (re_sub industry_alternation ''"Pharmaceutical"''
            (py_strip (re_sub [Spaces0, Lit ''```''] []
               (re_sub [Lit ''```'', Opt ''json'', Spaces0] [] text))))
   \<and> (\<forall>w1 w2 w3 w4 pre post.
         blank w1 \<and> blank w2 \<and> blank w3 \<and> blank w4
         \<and> (\<forall>i < length pre.
               \<not> begins_industry (drop i (pre @ industry_phrase w1 w2 w3 w4 @ post)))
         \<longrightarrow> re_sub industry_alternation ''"Pharmaceutical"''
               (pre @ industry_phrase w1 w2 w3 w4 @ post)
             = pre @ ''"Pharmaceutical"'' @ re_sub industry_alternation ''"Pharmaceutical"'' post)
   \<and> (\<forall>s. (\<forall>i < length s. \<not> begins_industry (drop i s))
         \<longrightarrow> re_sub industry_alternation ''"Pharmaceutical"'' s = s)
   \<and> (\<forall>w1 w2 w3 w4 w5 w6 w7 w8 pre post.
         blank w1 \<and> blank w2 \<and> blank w3 \<and> blank w4
         \<and> blank w5 \<and> blank w6 \<and> blank w7 \<and> blank w8
         \<and> (\<forall>i < length pre.
               \<not> begins_sub_category
                   (drop i (pre @ sub_category_phrase w1 w2 w3 w4 w5 w6 w7 w8 @ post)))
         \<longrightarrow> re_sub sub_category_alternation ''"Pharma"''
               (pre @ sub_category_phrase w1 w2 w3 w4 w5 w6 w7 w8 @ post)
             = pre @ ''"Pharma"'' @ re_sub sub_category_alternation ''"Pharma"'' post)
   \<and> (\<forall>s. (\<forall>i < length s. \<not> begins_sub_category (drop i s))
         \<longrightarrow> re_sub sub_category_alternation ''"Pharma"'' s = s)\<close>
proof (intro conjI allI impI)
  show \<open>clean_json_text text
     = re_sub sub_category_alternation ''"Pharma"''
         (re_sub industry_alternation ''"Pharmaceutical"''
            (py_strip (re_sub [Spaces0, Lit ''```''] []
               (re_sub [Lit ''```'', Opt ''json'', Spaces0] [] text))))\<close>
    by (simp only: clean_json_text_def Let_def)
next
  fix w1 w2 w3 w4 pre post
  assume h: \<open>blank w1 \<and> blank w2 \<and> blank w3 \<and> blank w4
         \<and> (\<forall>i < length pre.
               \<not> begins_industry (drop i (pre @ industry_phrase w1 w2 w3 w4 @ post)))\<close>
  then have "\<forall>i < length pre.
      match_pat industry_alternation (drop i (pre @ industry_phrase w1 w2 w3 w4 @ post)) = None"
    using industry_no_match by blast
  from re_sub_leftmost[OF this] re_sub_industry_phrase[of w1 w2 w3 w4] h
  show \<open>re_sub industry_alternation ''"Pharmaceutical"''
               (pre @ industry_phrase w1 w2 w3 w4 @ post)
             = pre @ ''"Pharmaceutical"'' @ re_sub industry_alternation ''"Pharmaceutical"'' post\<close>
    by simp
next
  fix s
  assume "\<forall>i < length s. \<not> begins_industry (drop i s)"
  then have "\<forall>i < length s. match_pat industry_alternation (drop i (s @ [])) = None"
    using industry_no_match by simp
  from re_sub_leftmost[OF this]
  show \<open>re_sub industry_alternation ''"Pharmaceutical"'' s = s\<close>
    by (simp add: re_sub_table_Nil del: re_sub.simps)
next
  fix w1 w2 w3 w4 w5 w6 w7 w8 pre post
  assume h: \<open>blank w1 \<and> blank w2 \<and> blank w3 \<and> blank w4
         \<and> blank w5 \<and> blank w6 \<and> blank w7 \<and> blank w8
         \<and> (\<forall>i < length pre.
               \<not> begins_sub_category
                   (drop i (pre @ sub_category_phrase w1 w2 w3 w4 w5 w6 w7 w8 @ post)))\<close>
  then have "\<forall>i < length pre.
      match_pat sub_category_alternation
        (drop i (pre @ sub_category_phrase w1 w2 w3 w4 w5 w6 w7 w8 @ post)) = None"
    using sub_category_no_match by blast
  from re_sub_leftmost[OF this] re_sub_sub_category_phrase[of w1 w2 w3 w4 w5 w6 w7 w8] h
  show \<open>re_sub sub_category_alternation ''"Pharma"''
               (pre @ sub_category_phrase w1 w2 w3 w4 w5 w6 w7 w8 @ post)
             = pre @ ''"Pharma"'' @ re_sub sub_category_alternation ''"Pharma"'' post\<close>
    by simp
next
  fix s
  assume "\<forall>i < length s. \<not> begins_sub_category (drop i s)"
  then have "\<forall>i < length s. match_pat sub_category_alternation (drop i (s @ [])) = None"
    using sub_category_no_match by simp
  from re_sub_leftmost[OF this]
  show \<open>re_sub sub_category_alternation ''"Pharma"'' s = s\<close>
    by (simp add: re_sub_table_Nil del: re_sub.simps)
qed


lemma begins_industry_head: \<open>begins_industry s \<Longrightarrow> prefix ''"Pharmaceutical"'' s\<close>
  unfolding begins_industry_def industry_phrase_def append_assoc
  by (elim exE conjE) (erule prefixI)

lemma begins_sub_category_head: \<open>begins_sub_category s \<Longrightarrow> prefix ''"Pharma"'' s\<close>
  unfolding begins_sub_category_def sub_category_phrase_def append_assoc
  by (elim exE conjE) (erule prefixI)

theorem listed_alternations_collapsed_witness:
  \<open>re_sub industry_alternation ''"Pharmaceutical"''
      (''"industry_association": '' @ industry_phrase '' '' '' '' '' '' '' '' @ '','')
     = ''"industry_association": "Pharmaceutical",''
   \<and> re_sub sub_category_alternation ''"Pharma"''
      (''"sub_category": '' @ sub_category_phrase '' '' '' '' '' '' '' '' '' '' '' '' '' '' '' '' @ '','')
     = ''"sub_category": "Pharma",''
   \<and> clean_json_text
       (''```json'' @ [CHR 0x0A]
        @ ''[{"person_name": "Ann Lee", "industry_association": "Pharmaceutical" or "Healthcare" or "Other", ''
        @ ''"sub_category": "Pharma" or "Oncology" or "Women's Health" or "Organ Studies" or "Not a Lead"}]''
        @ [CHR 0x0A] @ ''```'')
     = ''[{"person_name": "Ann Lee", "industry_association": "Pharmaceutical", "sub_category": "Pharma"}]''\<close>
proof -
  have b: \<open>blank '' ''\<close> by (simp add: blank_def is_space_def)
  have \<open>\<forall>i < length ''"industry_association": ''.
          \<not> prefix ''"Pharmaceutical"''
              (drop i (''"industry_association": '' @ industry_phrase '' '' '' '' '' '' '' '' @ '',''))\<close>
    by (simp add: industry_phrase_def All_less_Suc)
  then have hi: \<open>\<forall>i < length ''"industry_association": ''.
          \<not> begins_industry
              (drop i (''"industry_association": '' @ industry_phrase '' '' '' '' '' '' '' '' @ '',''))\<close>
    using begins_industry_head by blast
  have \<open>\<forall>i < length ''"sub_category": ''.
          \<not> prefix ''"Pharma"''
              (drop i (''"sub_category": ''
                 @ sub_category_phrase '' '' '' '' '' '' '' '' '' '' '' '' '' '' '' '' @ '',''))\<close>
    by (simp add: sub_category_phrase_def All_less_Suc)
  then have hs: \<open>\<forall>i < length ''"sub_category": ''.
          \<not> begins_sub_category
              (drop i (''"sub_category": ''
                 @ sub_category_phrase '' '' '' '' '' '' '' '' '' '' '' '' '' '' '' '' @ '',''))\<close>
    using begins_sub_category_head by blast
  note t = listed_alternations_collapsed[of "[]"]
  have 1: \<open>re_sub industry_alternation ''"Pharmaceutical"''
      (''"industry_association": '' @ industry_phrase '' '' '' '' '' '' '' '' @ '','')
     = ''"industry_association": '' @ ''"Pharmaceutical"''
         @ re_sub industry_alternation ''"Pharmaceutical"'' '',''\<close>
    using t[THEN conjunct2, THEN conjunct1, rule_format, OF conjI[OF b conjI[OF b conjI[OF b conjI[OF b hi]]]]] .
  have 2: \<open>re_sub sub_category_alternation ''"Pharma"''
      (''"sub_category": '' @ sub_category_phrase '' '' '' '' '' '' '' '' '' '' '' '' '' '' '' '' @ '','')
     = ''"sub_category": '' @ ''"Pharma"'' @ re_sub sub_category_alternation ''"Pharma"'' '',''\<close>
    using t[THEN conjunct2, THEN conjunct2, THEN conjunct2, THEN conjunct1, rule_format,
        OF conjI[OF b conjI[OF b conjI[OF b conjI[OF b conjI[OF b conjI[OF b conjI[OF b conjI[OF b hs]]]]]]]]] .
  have 3: \<open>re_sub industry_alternation ''"Pharmaceutical"'' '','' = '',''\<close>
    \<open>re_sub sub_category_alternation ''"Pharma"'' '','' = '',''\<close>
    by (simp_all add: industry_alternation_def sub_category_alternation_def)
  have 4: \<open>clean_json_text
       (''```json'' @ [CHR 0x0A]
        @ ''[{"person_name": "Ann Lee", "industry_association": "Pharmaceutical" or "Healthcare" or "Other", ''
        @ ''"sub_category": "Pharma" or "Oncology" or "Women's Health" or "Organ Studies" or "Not a Lead"}]''
        @ [CHR 0x0A] @ ''```'')
     = ''[{"person_name": "Ann Lee", "industry_association": "Pharmaceutical", "sub_category": "Pharma"}]''\<close>
    by (simp add: clean_json_text_def industry_alternation_def sub_category_alternation_def
        py_strip_def is_space_def)
  show ?thesis using 1 2 3 4 by simp
qed

text \<open>
  The claim as stated fails: an alternation that is not in the table, such as
  \<^verbatim>\<open>"A" or "B" or "C"\<close>, is left as it is.
\<close>

theorem unlisted_alternation_counterexample:
  \<open>clean_json_text ''"A" or "B" or "C"'' = ''"A" or "B" or "C"''\<close>
  by (simp add: clean_json_text_def industry_alternation_def sub_category_alternation_def
      py_strip_def is_space_def)

section \<open>Properties of the two concurrency tiers\<close>

lemma count_update:
  "i < length xs \<Longrightarrow>
   length (filter P (xs[i := y])) + (if P (xs ! i) then 1 else 0)
     = length (filter P xs) + (if P y then 1 else 0)"
proof (induction xs arbitrary: i)
  case Nil
  then show ?case by simp
next
  case (Cons x xs)
  then show ?case by (cases i) auto
qed

lemma balanced_init: "balanced c (init_fanout c n)"
  by (simp add: balanced_def init_fanout_def holds_permit_def)

lemma task_step_balanced:
  assumes "task_step d i s = Some s'" "balanced c s"
  shows "balanced c s'"
proof -
  from assms(1) have i: "i < length (tasks s)"
    by (auto simp: task_step_def split: if_splits)
  note cu = count_update[OF i, of holds_permit]
  show ?thesis
    using assms cu[of Sleeping] cu[of Searching] cu[of Finished]
    by (cases "tasks s ! i")
       (auto simp: task_step_def balanced_def holds_permit_def split: if_splits)
qed

lemma run_fanout_balanced:
  "run_fanout d schedule s = Some s' \<Longrightarrow> balanced c s \<Longrightarrow> balanced c s'"
proof (induction schedule arbitrary: s)
  case Nil
  then show ?case by simp
next
  case (Cons i schedule)
  then show ?case by (auto split: option.splits dest: task_step_balanced)
qed

lemma in_flight_le_holders: "in_flight s \<le> length (filter holds_permit (tasks s))"
proof -
  have "filter (\<lambda>p. p = Searching) (tasks s) = filter (\<lambda>p. p = Searching) (filter holds_permit (tasks s))"
    by (auto simp: holds_permit_def intro: filter_cong)
  then show ?thesis unfolding in_flight_def by (metis length_filter_le)
qed

lemma balanced_in_flight: "balanced c s \<Longrightarrow> in_flight s \<le> c"
  using in_flight_le_holders[of s] by (simp add: balanced_def)

lemma pool_ok_init: "pool_ok c width (replicate n Queued)"
  by (simp add: pool_ok_def running_def)

lemma set_update_cases: "x \<in> set (xs[i := y]) \<Longrightarrow> x = y \<or> x \<in> set xs"
  using set_update_subset_insert by fastforce

lemma pool_step_ok:
  assumes "pool_step d c width sizes ev pool = Some pool'" "pool_ok c width pool"
  shows "pool_ok c width pool'"
proof (cases ev)
  case (Start b)
  with assms(1) have b: "b < length pool" "pool ! b = Queued" "running pool < width"
    and p': "pool' = pool[b := Running (init_fanout c (sizes ! b))]"
    by (auto simp: pool_step_def split: if_splits)
  have "running pool' + (if is_running (pool ! b) then 1 else 0) = running pool + 1"
    unfolding running_def p' using count_update[OF b(1), of is_running] by simp
  then have "running pool' \<le> width" using b by simp
  moreover have "balanced c f" if "Running f \<in> set pool'" for f
    using set_update_cases[OF that[unfolded p']] assms(2) balanced_init
    by (auto simp: pool_ok_def)
  ultimately show ?thesis by (simp add: pool_ok_def)
next
  case (Item b i)
  with assms(1) obtain f f' where b: "b < length pool" "pool ! b = Running f"
    and st: "task_step d i f = Some f'" and p': "pool' = pool[b := Running f']"
    by (auto simp: pool_step_def split: if_splits slot.splits option.splits)
  have "running pool' + (if is_running (pool ! b) then 1 else 0) = running pool + 1"
    unfolding running_def p' using count_update[OF b(1), of is_running] by simp
  then have "running pool' \<le> width" using b assms(2) by (simp add: pool_ok_def)
  moreover have "Running f \<in> set pool" using b by (metis nth_mem)
  then have "balanced c f'" using assms(2) st task_step_balanced by (auto simp: pool_ok_def)
  then have "balanced c g" if "Running g \<in> set pool'" for g
    using set_update_cases[OF that[unfolded p']] assms(2)
    by (auto simp: pool_ok_def)
  ultimately show ?thesis by (simp add: pool_ok_def)
next
  case (Finish b)
  with assms(1) obtain f where b: "b < length pool" "pool ! b = Running f"
    and p': "pool' = pool[b := Completed]"
    by (auto simp: pool_step_def split: if_splits slot.splits option.splits)
  have "running pool' + (if is_running (pool ! b) then 1 else 0) = running pool"
    unfolding running_def p' using count_update[OF b(1), of is_running] by simp
  then have "running pool' \<le> width" using b assms(2) by (simp add: pool_ok_def)
  moreover have "balanced c g" if "Running g \<in> set pool'" for g
    using set_update_cases[OF that[unfolded p']] assms(2)
    by (auto simp: pool_ok_def)
  ultimately show ?thesis by (simp add: pool_ok_def)
qed

lemma run_pool_ok:
  "run_pool d c width sizes evs pool = Some pool' \<Longrightarrow> pool_ok c width pool
   \<Longrightarrow> pool_ok c width pool'"
proof (induction evs arbitrary: pool)
  case Nil
  then show ?case by simp
next
  case (Cons ev evs)
  then show ?case by (auto split: option.splits dest: pool_step_ok)
qed

lemma total_in_flight_le:
  "(\<forall>f. Running f \<in> set pool \<longrightarrow> in_flight f \<le> c)
   \<Longrightarrow> total_in_flight pool \<le> running pool * c"
proof (induction pool)
  case Nil
  then show ?case by (simp add: total_in_flight_def running_def)
next
  case (Cons x pool)
  then have ih: "total_in_flight pool \<le> running pool * c" by simp
  show ?case
  proof (cases x)
    case (Running f)
    with Cons.prems have "in_flight f \<le> c" by simp
    with ih Running show ?thesis by (simp add: total_in_flight_def running_def)
  qed (use ih in \<open>simp_all add: total_in_flight_def running_def\<close>)
qed

lemma pool_ok_bounds:
  assumes "pool_ok c width pool"
  shows "running pool \<le> width" "Running f \<in> set pool \<Longrightarrow> in_flight f \<le> c"
    "total_in_flight pool \<le> width * c"
proof -
  show r: "running pool \<le> width" using assms by (simp add: pool_ok_def)
  show "Running f \<in> set pool \<Longrightarrow> in_flight f \<le> c"
    using assms balanced_in_flight by (auto simp: pool_ok_def)
  have "total_in_flight pool \<le> running pool * c"
    using assms balanced_in_flight by (intro total_in_flight_le) (auto simp: pool_ok_def)
  also have "\<dots> \<le> width * c" using r by simp
  finally show "total_in_flight pool \<le> width * c" .
qed

lemma pool_width_le: "pool_width cfg attendees \<le> nat (max_workers cfg)"
  by (auto simp: pool_width_def split: sum.splits)

text \<open>
  Claim C8 says that a task waits the pacing delay before it acquires a permit, outside the
  critical section. In the code the delay is inside \<^verbatim>\<open>async with semaphore\<close>: with one
  permit, two items and a delay of 0.5, the first move of task 0 takes the permit and leaves
  the task sleeping, and while it sleeps task 1 cannot acquire a permit.
\<close>

theorem delay_inside_permit_counterexample:
  "task_step (1/2) 0 (init_fanout 1 2) = Some (Fanout 0 [Sleeping, Waiting])
   \<and> task_step (1/2) 1 (Fanout 0 [Sleeping, Waiting]) = None"
  by (simp add: task_step_def init_fanout_def eval_nat_numeral)

lemma never_sleeps_step:
  "task_step d i s = Some s' \<Longrightarrow> \<not> 0 < d \<Longrightarrow> Sleeping \<notin> set (tasks s)
   \<Longrightarrow> Sleeping \<notin> set (tasks s')"
  by (cases "tasks s ! i")
     (auto simp: task_step_def split: if_splits dest!: set_update_cases)

lemma never_sleeps_run:
  "run_fanout d schedule s = Some s' \<Longrightarrow> \<not> 0 < d \<Longrightarrow> Sleeping \<notin> set (tasks s)
   \<Longrightarrow> Sleeping \<notin> set (tasks s')"
proof (induction schedule arbitrary: s)
  case Nil
  then show ?case by simp
next
  case (Cons i schedule)
  then show ?case by (auto split: option.splits dest: never_sleeps_step)
qed

lemma task_step_Waiting:
  "task_step d i s = Some s' \<Longrightarrow> tasks s ! i = Waiting
   \<Longrightarrow> permits s' + 1 = permits s \<and> tasks s' ! i = (if 0 < d then Sleeping else Searching)"
  by (auto simp: task_step_def split: if_splits)

lemma task_step_Sleeping:
  "task_step d i s = Some s' \<Longrightarrow> tasks s ! i = Sleeping
   \<Longrightarrow> permits s' = permits s \<and> tasks s' ! i = Searching"
  by (auto simp: task_step_def split: if_splits)

text \<open>
  Claim C8, as amended: within a single batch's fanout, every per-item task first acquires
  a concurrency permit and then, when \<open>d > 0\<close>, waits the pacing delay while holding the
  permit, before its enrichment call. In every state a fanout can reach: the free permits
  and the tasks that are sleeping or searching add up to the cap, so every sleeping task
  holds a permit; the next move of a waiting task takes a permit and puts the task to sleep
  when \<open>d > 0\<close> (otherwise it starts its enrichment call at once); the next move of a
  sleeping task starts its enrichment call and leaves the permits as they are; and when
  \<open>d\<close> is not positive no task ever sleeps.
\<close>

theorem delay_served_holding_permit:
  assumes "run_fanout d schedule (init_fanout c n) = Some s"
  shows "permits s + length (filter holds_permit (tasks s)) = c
         \<and> (\<forall>i s'. task_step d i s = Some s' \<and> tasks s ! i = Waiting
               \<longrightarrow> permits s' + 1 = permits s
                   \<and> tasks s' ! i = (if 0 < d then Sleeping else Searching))
         \<and> (\<forall>i s'. task_step d i s = Some s' \<and> tasks s ! i = Sleeping
               \<longrightarrow> permits s' = permits s \<and> tasks s' ! i = Searching)
         \<and> (\<not> 0 < d \<longrightarrow> Sleeping \<notin> set (tasks s))"
proof (intro conjI allI impI)
  show "permits s + length (filter holds_permit (tasks s)) = c"
    using run_fanout_balanced[OF assms balanced_init] by (simp add: balanced_def)
next
  fix i s'
  assume "task_step d i s = Some s' \<and> tasks s ! i = Waiting"
  then show "permits s' + 1 = permits s" 
    and "tasks s' ! i = (if 0 < d then Sleeping else Searching)"
    using task_step_Waiting by blast+
next
  fix i s'
  assume "task_step d i s = Some s' \<and> tasks s ! i = Sleeping"
  then show "permits s' = permits s" and "tasks s' ! i = Searching"
    using task_step_Sleeping by blast+
next
  assume "\<not> 0 < d"
  then show "Sleeping \<notin> set (tasks s)"
    using never_sleeps_run[OF assms] by (simp add: init_fanout_def)
qed

theorem delay_served_holding_permit_witness:
  "run_fanout (1/2) [0, 1, 0] (init_fanout 2 3) = Some (Fanout 0 [Searching, Sleeping, Waiting])
   \<and> permits (Fanout 0 [Searching, Sleeping, Waiting])
       + length (filter holds_permit (tasks (Fanout 0 [Searching, Sleeping, Waiting]))) = 2
   \<and> task_step (1/2) 1 (Fanout 0 [Searching, Sleeping, Waiting])
       = Some (Fanout 0 [Searching, Searching, Waiting])
   \<and> task_step (1/2) 2 (Fanout 0 [Searching, Sleeping, Waiting]) = None"
proof -
  have run: "run_fanout (1/2) [0, 1, 0] (init_fanout 2 3)
             = Some (Fanout 0 [Searching, Sleeping, Waiting])"
    by (simp add: task_step_def init_fanout_def eval_nat_numeral)
  have "permits (Fanout 0 [Searching, Sleeping, Waiting])
       + length (filter holds_permit (tasks (Fanout 0 [Searching, Sleeping, Waiting]))) = 2"
    using delay_served_holding_permit[OF run] by simp
  with run show ?thesis by (simp add: task_step_def)
qed

text \<open>
  Claim C9: at every instant of a run, whatever the interleaving of the batch tasks and of
  their item tasks, every running fanout has at most \<^verbatim>\<open>max_concurrent_searches\<close>
  enrichment calls in flight, at most \<^verbatim>\<open>max_workers\<close> batch pipelines are running, and
  the enrichment calls in flight over all batches are at most the product of the two.
  The two settings are counts: a negative one bounds by zero.
\<close>

theorem concurrency_bounds:
  assumes "run_pool d (nat (max_concurrent_searches cfg)) (pool_width cfg attendees)
             (batch_tasks cfg attendees) evs
             (replicate (submitted_batches cfg attendees) Queued) = Some pool"
  shows "(\<forall>f. Running f \<in> set pool \<longrightarrow> in_flight f \<le> nat (max_concurrent_searches cfg))
         \<and> running pool \<le> nat (max_workers cfg)
         \<and> total_in_flight pool \<le> nat (max_workers cfg) * nat (max_concurrent_searches cfg)"
proof -
  let ?c = "nat (max_concurrent_searches cfg)"
  let ?w = "pool_width cfg attendees"
  have ok: "pool_ok ?c ?w pool"
    using run_pool_ok[OF assms pool_ok_init] .
  have w: "?w \<le> nat (max_workers cfg)" by (rule pool_width_le)
  have "running pool \<le> ?w" by (rule pool_ok_bounds(1)[OF ok])
  then have 1: "running pool \<le> nat (max_workers cfg)" using w by simp
  have "total_in_flight pool \<le> ?w * ?c" by (rule pool_ok_bounds(3)[OF ok])
  also have "\<dots> \<le> nat (max_workers cfg) * ?c" using w by simp
  finally have 2: "total_in_flight pool \<le> nat (max_workers cfg) * ?c" .
  have 3: "\<forall>f. Running f \<in> set pool \<longrightarrow> in_flight f \<le> ?c"
    using pool_ok_bounds(2)[OF ok] by blast
  from 1 2 3 show ?thesis by blast
qed

lemma ex_pool_setup:
  "pool_width ex_pool_config ex_five = 2"
  "submitted_batches ex_pool_config ex_five = 3"
  "batch_tasks ex_pool_config ex_five = [2, 2, 1]"
  "nat (max_concurrent_searches ex_pool_config) = 1"
  "nat (max_workers ex_pool_config) = 2"
  by (simp_all add: pool_width_def submitted_batches_def batch_tasks_def ex_pool_config_def
      ex_five_def total_batches_def preprocess_attendees_def py_slice_def py_bound_def
      eval_nat_numeral upt_rec)

lemma ex_pool_run:
  "run_pool (1/2) 1 2 [2, 2, 1]
     [Start 0, Start 1, Item 0 0, Item 0 0, Item 1 1, Item 1 1] (replicate 3 Queued)
   = Some [Running (Fanout 0 [Searching, Waiting]), Running (Fanout 0 [Waiting, Searching]),
           Queued]"
  by (simp add: pool_step_def running_def task_step_def init_fanout_def eval_nat_numeral)

theorem concurrency_bounds_witness:
  "run_pool (1/2) (nat (max_concurrent_searches ex_pool_config))
     (pool_width ex_pool_config ex_five) (batch_tasks ex_pool_config ex_five)
     [Start 0, Start 1, Item 0 0, Item 0 0, Item 1 1, Item 1 1]
     (replicate (submitted_batches ex_pool_config ex_five) Queued)
   = Some [Running (Fanout 0 [Searching, Waiting]), Running (Fanout 0 [Waiting, Searching]),
           Queued]
   \<and> in_flight (Fanout 0 [Searching, Waiting]) = 1
   \<and> in_flight (Fanout 0 [Waiting, Searching]) = 1
   \<and> running [Running (Fanout 0 [Searching, Waiting]),
                Running (Fanout 0 [Waiting, Searching]), Queued] = 2
   \<and> total_in_flight [Running (Fanout 0 [Searching, Waiting]),
                        Running (Fanout 0 [Waiting, Searching]), Queued] = 2
   \<and> total_in_flight [Running (Fanout 0 [Searching, Waiting]),
                        Running (Fanout 0 [Waiting, Searching]), Queued]
        \<le> nat (max_workers ex_pool_config) * nat (max_concurrent_searches ex_pool_config)"
proof -
  have run: "run_pool (1/2) (nat (max_concurrent_searches ex_pool_config))
     (pool_width ex_pool_config ex_five) (batch_tasks ex_pool_config ex_five)
     [Start 0, Start 1, Item 0 0, Item 0 0, Item 1 1, Item 1 1]
     (replicate (submitted_batches ex_pool_config ex_five) Queued)
   = Some [Running (Fanout 0 [Searching, Waiting]), Running (Fanout 0 [Waiting, Searching]),
           Queued]"
    unfolding ex_pool_setup by (rule ex_pool_run)
  have "total_in_flight [Running (Fanout 0 [Searching, Waiting]),
                        Running (Fanout 0 [Waiting, Searching]), Queued]
        \<le> nat (max_workers ex_pool_config) * nat (max_concurrent_searches ex_pool_config)"
    using concurrency_bounds[OF run] by blast
  with run show ?thesis
    by (simp add: in_flight_def running_def total_in_flight_def)
qed

end
